theory Spec2Isabelle
  imports Main
begin

section \<open>Python objects, exceptions and the trace of observable calls\<close>

text \<open>
  A \<open>pybind11::object\<close> is a reference to a Python object; two references are the same
  callback when their \<open>ptr()\<close> agree.  Objects carry what the code and the Python runtime
  look at:
  \<^item> \<open>Null\<close>, the null reference, and \<open>Py_None\<close>;
  \<^item> \<open>Object p\<close>, an object that is neither an exception nor a class;
  \<^item> \<open>Exception_instance k p tb\<close>, an instance of an exception class: \<open>k\<close> says whether its
    type is exactly \<open>StopIteration\<close>, \<open>p\<close> is its identity and \<open>tb\<close> its \<open>__traceback__\<close>
    (\<open>Null\<close> when it was never raised);
  \<^item> \<open>TypeOf x\<close>, the type of \<open>x\<close> (its \<open>ob_type\<close>);
  \<^item> \<open>Instance_of c\<close>, an instance that a call of the class \<open>c\<close> makes (the call is taken to
    succeed);
  \<^item> \<open>CancelledError_instance\<close>, the instance made by \<open>asyncio.CancelledError(None)\<close>;
  \<^item> \<open>SystemError_type\<close>, the class \<open>SystemError\<close>, and \<open>SystemError_message t\<close>, the string
    with which the runtime reports that \<open>t\<close> is not an exception class.
\<close>

type_synonym py_ptr = nat

datatype exception_kind = StopIteration | AnyOtherException

datatype py_object =
    Null
  | Py_None
  | Object py_ptr
  | Exception_instance exception_kind py_ptr py_object
  | TypeOf py_object
  | Instance_of py_object
  | CancelledError_instance
  | SystemError_type
  | SystemError_message py_object

text \<open>
  The checks of the Python runtime: whether an object is an instance of an exception class,
  whether it is itself an exception class, whether its type is exactly \<open>StopIteration\<close>, and
  the traceback an exception instance carries.
\<close>

fun PyExceptionInstance_Check :: "py_object \<Rightarrow> bool"
  and PyExceptionClass_Check :: "py_object \<Rightarrow> bool" where
  "PyExceptionInstance_Check (Exception_instance k p tb) = True"
| "PyExceptionInstance_Check CancelledError_instance = True"
| "PyExceptionInstance_Check (Instance_of c) = PyExceptionClass_Check c"
| "PyExceptionInstance_Check Null = False"
| "PyExceptionInstance_Check Py_None = False"
| "PyExceptionInstance_Check (Object p) = False"
| "PyExceptionInstance_Check (TypeOf x) = False"
| "PyExceptionInstance_Check SystemError_type = False"
| "PyExceptionInstance_Check (SystemError_message t) = False"
| "PyExceptionClass_Check (TypeOf x) = PyExceptionInstance_Check x"
| "PyExceptionClass_Check SystemError_type = True"
| "PyExceptionClass_Check Null = False"
| "PyExceptionClass_Check Py_None = False"
| "PyExceptionClass_Check (Object p) = False"
| "PyExceptionClass_Check (Exception_instance k p tb) = False"
| "PyExceptionClass_Check (Instance_of c) = False"
| "PyExceptionClass_Check CancelledError_instance = False"
| "PyExceptionClass_Check (SystemError_message t) = False"

fun is_StopIteration :: "py_object \<Rightarrow> bool"
  and is_StopIteration_class :: "py_object \<Rightarrow> bool" where
  "is_StopIteration (Exception_instance k p tb) = (k = StopIteration)"
| "is_StopIteration (Instance_of c) = is_StopIteration_class c"
| "is_StopIteration Null = False"
| "is_StopIteration Py_None = False"
| "is_StopIteration (Object p) = False"
| "is_StopIteration (TypeOf x) = False"
| "is_StopIteration CancelledError_instance = False"
| "is_StopIteration SystemError_type = False"
| "is_StopIteration (SystemError_message t) = False"
| "is_StopIteration_class (TypeOf x) = is_StopIteration x"
| "is_StopIteration_class Null = False"
| "is_StopIteration_class Py_None = False"
| "is_StopIteration_class (Object p) = False"
| "is_StopIteration_class (Exception_instance k p tb) = False"
| "is_StopIteration_class (Instance_of c) = False"
| "is_StopIteration_class CancelledError_instance = False"
| "is_StopIteration_class SystemError_type = False"
| "is_StopIteration_class (SystemError_message t) = False"

fun PyException_GetTraceback :: "py_object \<Rightarrow> py_object" where
  "PyException_GetTraceback (Exception_instance k p tb) = tb"
| "PyException_GetTraceback x = Null"

text \<open>
  The Python error indicator that an \<open>error_already_set\<close> carries: set by
  \<open>PyErr_SetNone(asyncio.CancelledError)\<close>, by \<open>PyErr_SetNone(builtins.TimeoutError)\<close>, by a
  signal handler run from \<open>PyErr_CheckSignals\<close>, restored from a stored exception value, or
  set by the host's awaitable when it is completed a second time (\<open>InvalidStateError\<close>) or
  given something it does not accept as an exception (\<open>TypeError\<close>).
\<close>

datatype py_error =
    CancelledError
  | TimeoutError
  | SignalHandlerError
  | Raised py_object
  | InvalidStateError
  | TypeError

datatype cpp_exception =
    error_already_set py_error
  | other_exception

text \<open>
  A done-callback is a Python callable.  Its identity is \<open>ptr\<close>; what calling it with the
  future does is \<open>outcome\<close>: it returns, or it throws out of the call.
\<close>

datatype call_outcome = Returns | Throws cpp_exception

datatype callback = Callback (ptr: py_ptr) (outcome: call_outcome)

type_synonym addr = nat

datatype event =
    Called py_ptr
  | WriteUnraisable py_error
  | LogUnexpected
  | CancelCalled addr

section \<open>The state of \<open>PythonFutureBase\<close>\<close>

text \<open>
  A cancel-callback node of the intrusive list: \<open>CancelCallbackBase\<close> has the two links,
  \<open>CancelCallback\<close> adds the closure.  The closure either only notifies (it sets the event of a
  waiting thread, which is what \<open>InterruptibleWaitImpl\<close> registers) or destroys its own
  registration, which unlinks the node and ends its lifetime.  The links are named \<open>nxt\<close> and
  \<open>prv\<close> for the members \<open>next\<close> and \<open>prev\<close>.
\<close>

datatype cancel_action = Notify | UnlinkSelf

record CancelCallback =
  nxt :: addr
  prv :: addr
  callback :: cancel_action

type_synonym memory = "addr \<rightharpoonup> CancelCallback"

text \<open>
  The members \<open>callbacks_\<close>, \<open>registration_\<close> and \<open>cancel_callbacks_\<close> (the address of the list's
  sentinel node), the memory holding the list nodes, and the trace of calls made so far.
  \<open>registration\<close> is true while the low-level listener registration is live;
  \<open>Unregister()\<close> makes it false.
\<close>

record PythonFutureBase =
  callbacks :: "callback list"
  registration :: bool
  cancel_callbacks :: addr
  mem :: memory
  trace :: "event list"

section \<open>\<open>remove_done_callback\<close>\<close>

text \<open>
  \<open>std::remove_if\<close> followed by \<open>erase\<close> keeps, in order, the elements whose pointer differs
  from the argument's; \<open>num_removed\<close> is the distance from the new end to the old one.
\<close>

definition remove_done_callback ::
  "py_ptr \<Rightarrow> 'a PythonFutureBase_scheme \<Rightarrow> nat \<times> 'a PythonFutureBase_scheme" where
  "remove_done_callback cb self =
     (let kept = filter (\<lambda>h. \<not> (ptr h = cb)) (callbacks self);
          num_removed = length (callbacks self) - length kept;
          self1 = self\<lparr>callbacks := kept\<rparr>;
          self2 = (if callbacks self1 = [] then self1\<lparr>registration := False\<rparr> else self1)
      in (num_removed, self2))"

section \<open>\<open>RunCallbacks\<close>\<close>

text \<open>
  One iteration of the loop: the call, then the handler of whatever it threw.
  \<open>error_already_set\<close> is restored and written with \<open>PyErr_WriteUnraisable\<close>; anything else is
  logged.  Both handlers fall through to the next iteration.
\<close>

fun RunCallbacks_loop :: "callback list \<Rightarrow> event list \<Rightarrow> event list" where
  "RunCallbacks_loop [] tr = tr"
| "RunCallbacks_loop (c # rest) tr =
     RunCallbacks_loop rest
       (case outcome c of
          Returns \<Rightarrow> tr @ [Called (ptr c)]
        | Throws (error_already_set e) \<Rightarrow> tr @ [Called (ptr c), WriteUnraisable e]
        | Throws other_exception \<Rightarrow> tr @ [Called (ptr c), LogUnexpected])"

definition RunCallbacks :: "'a PythonFutureBase_scheme \<Rightarrow> 'a PythonFutureBase_scheme" where
  "RunCallbacks self =
     (let moved = callbacks self;
          self1 = self\<lparr>callbacks := []\<rparr>
      in self1\<lparr>trace := RunCallbacks_loop moved (trace self1)\<rparr>)"

text \<open>The done-callbacks a trace shows as called, in the order of the calls.\<close>

fun called :: "event list \<Rightarrow> py_ptr list" where
  "called [] = []"
| "called (Called p # tr) = p # called tr"
| "called (e # tr) = called tr"

section \<open>\<open>GetWaitDeadline\<close>\<close>

text \<open>
  \<open>absl::Time\<close> and \<open>absl::Duration\<close> are tick counts with the two infinities, and addition
  saturates.  \<open>std::min(a, b)\<close> is \<open>b\<close> when \<open>b < a\<close> and \<open>a\<close> otherwise.  The conversion
  \<open>absl::Seconds\<close> of a \<open>double\<close> and the clock \<open>absl::Now()\<close> are parameters.
\<close>

datatype Duration = NegInfiniteDuration | Ticks int | InfiniteDuration

datatype Time = InfinitePast | At int | InfiniteFuture

definition UnixEpoch :: Time where
  "UnixEpoch = At 0"

fun time_plus :: "Time \<Rightarrow> Duration \<Rightarrow> Time" where
  "time_plus InfinitePast d = InfinitePast"
| "time_plus InfiniteFuture d = InfiniteFuture"
| "time_plus (At t) NegInfiniteDuration = InfinitePast"
| "time_plus (At t) InfiniteDuration = InfiniteFuture"
| "time_plus (At t) (Ticks d) = At (t + d)"

fun time_less :: "Time \<Rightarrow> Time \<Rightarrow> bool" where
  "time_less InfinitePast b = (b \<noteq> InfinitePast)"
| "time_less (At s) (At t) = (s < t)"
| "time_less (At s) InfiniteFuture = True"
| "time_less (At s) InfinitePast = False"
| "time_less InfiniteFuture b = False"

definition time_le :: "Time \<Rightarrow> Time \<Rightarrow> bool" where
  "time_le a b = (\<not> time_less b a)"

definition std_min :: "Time \<Rightarrow> Time \<Rightarrow> Time" where
  "std_min a b = (if time_less b a then b else a)"

definition GetWaitDeadline ::
  "('d \<Rightarrow> Duration) \<Rightarrow> Time \<Rightarrow> 'd option \<Rightarrow> 'd option \<Rightarrow> Time" where
  "GetWaitDeadline Seconds Now timeout deadline =
     (let deadline_time = InfiniteFuture;
          deadline_time = (case deadline of
                             Some d \<Rightarrow> time_plus UnixEpoch (Seconds d)
                           | None \<Rightarrow> deadline_time);
          deadline_time = (case timeout of
                             Some t \<Rightarrow> std_min deadline_time (time_plus Now (Seconds t))
                           | None \<Rightarrow> deadline_time)
      in deadline_time)"

section \<open>\<open>InterruptibleWaitImpl\<close>\<close>

text \<open>
  The three results of \<open>ScopedEvent::Wait\<close>.
\<close>

datatype ScopedEventWaitResult = kSuccess | kInterrupt | kTimeout

text \<open>
  What the waiting thread cannot decide itself is given by the environment: the result of
  the \<open>n\<close>-th call of \<open>event.Wait(deadline)\<close> (made with the GIL released), and the result of
  the call of \<open>PyErr_CheckSignals()\<close> that follows it, which is \<open>-1\<close> when a signal handler
  raised.
\<close>

record wait_env =
  Wait :: "nat \<Rightarrow> ScopedEventWaitResult"
  PyErr_CheckSignals :: "nat \<Rightarrow> int"

text \<open>
  \<open>ThrowCancelledError\<close> and \<open>ThrowTimeoutError\<close> set \<open>asyncio.CancelledError\<close> and
  \<open>builtins.TimeoutError\<close> as the Python error and throw \<open>error_already_set\<close>.
  \<open>GetCancelledError\<close> makes an instance of \<open>asyncio.CancelledError\<close> and returns it.
\<close>

definition ThrowCancelledError :: "cpp_exception + 'a" where
  "ThrowCancelledError = Inl (error_already_set CancelledError)"

definition ThrowTimeoutError :: "cpp_exception + 'a" where
  "ThrowTimeoutError = Inl (error_already_set TimeoutError)"

definition GetCancelledError :: py_object where
  "GetCancelledError = CancelledError_instance"

text \<open>
  The \<open>while (true)\<close> loop.  \<open>python_future\<close> is \<open>None\<close> for a null pointer; otherwise it
  gives what \<open>python_future->cancelled()\<close> answers after the \<open>n\<close>-th wait.  The loop may run
  forever, which is the value \<open>None\<close>; a normal return is \<open>Inr n\<close>, with \<open>n\<close> the index of
  the wait that succeeded.  The event, the cancel-callback that sets it and the listener
  registration are created before the loop and released on every way out of it; they decide
  what \<open>Wait\<close> returns and are part of the environment here.
\<close>

partial_function (option) InterruptibleWaitImpl_loop ::
  "wait_env \<Rightarrow> (nat \<Rightarrow> bool) option \<Rightarrow> nat \<Rightarrow> (cpp_exception + nat) option" where
  "InterruptibleWaitImpl_loop env python_future n =
     (case Wait env n of
        kSuccess \<Rightarrow>
          (if (case python_future of None \<Rightarrow> False | Some is_cancelled \<Rightarrow> is_cancelled n)
           then Some ThrowCancelledError
           else Some (Inr n))
      | kInterrupt \<Rightarrow>
          (if PyErr_CheckSignals env n = - 1
           then Some (Inl (error_already_set SignalHandlerError))
           else InterruptibleWaitImpl_loop env python_future (Suc n))
      | kTimeout \<Rightarrow> Some ThrowTimeoutError)"

definition InterruptibleWaitImpl ::
  "wait_env \<Rightarrow> (nat \<Rightarrow> bool) option \<Rightarrow> (cpp_exception + nat) option" where
  "InterruptibleWaitImpl env python_future = InterruptibleWaitImpl_loop env python_future 0"

text \<open>A wake-up by a signal with nothing pending afterwards.\<close>

definition spurious :: "wait_env \<Rightarrow> nat \<Rightarrow> bool" where
  "spurious env n = (Wait env n = kInterrupt \<and> \<not> (PyErr_CheckSignals env n = - 1))"

section \<open>The Promise side: \<open>set_result\<close>, \<open>set_exception\<close> and the result slot\<close>

text \<open>
  \<open>PythonValueOrException\<close> holds either a value (the member \<open>value\<close>, here
  \<open>value_obj\<close>) or the three parts of a fetched Python error; the absent parts are null
  references.
\<close>

record PythonValueOrException =
  value_obj :: py_object
  error_type :: py_object
  error_value :: py_object
  error_traceback :: py_object

text \<open>
  The type caster of \<open>PythonValueOrException\<close>: without a value the stored error is restored
  and thrown, otherwise the value is returned.
\<close>

definition cast :: "PythonValueOrException \<Rightarrow> cpp_exception + py_object" where
  "cast r =
     (if value_obj r = Null then Inl (error_already_set (Raised (error_value r)))
      else Inr (value_obj r))"

text \<open>
  Modelled from the spec: the result slot shared by a Promise and its Future (3, 4.4) is
  unset, completed with a value or an error, or cancelled.  The class that holds it,
  \<open>PythonFuture\<close>, is declared in \<open>python/tensorstore/future.h\<close>, which is not among the
  sources; here it is \<open>PythonFutureBase\<close> with the slot as the member \<open>future\<close>.
\<close>

datatype ResultSlot = Unset | Completed PythonValueOrException | Cancelled

record PythonFuture = PythonFutureBase +
  future :: ResultSlot

text \<open>
  Modelled from the spec: \<open>Promise::SetResult\<close> is declared in \<open>tensorstore/util/future.h\<close>,
  which is not among the sources.  The spec (4.4): it writes Completed if the channel is
  Pending, else it is a no-op; the write triggers the dispatch of the done-callbacks.  (It
  also wakes the waiting threads, which shows in what their waits return.)
\<close>

definition SetResult :: "PythonValueOrException \<Rightarrow> PythonFuture \<Rightarrow> PythonFuture" where
  "SetResult r self =
     (if future self = Unset then RunCallbacks (self\<lparr>future := Completed r\<rparr>) else self)"

text \<open>
  \<open>PyErr_SetObject(type, value)\<close> of the Python runtime (CPython before 3.12, where the error
  indicator holds a type, a value that need not be an instance yet, and a traceback), as the
  indicator it leaves.  \<open>handled\<close> is the exception that the calling thread is handling, \<open>Null\<close>
  or \<open>None\<close> when there is none, as inside and outside an \<open>except\<close> block.
  \<^item> A \<open>type\<close> that is not an exception class is refused: the error set is \<open>SystemError\<close> with
    a message string as its value.
  \<^item> While an exception is being handled, a value that is not an exception instance is made
    into an instance of the type at once, so that the handled exception can be chained to
    it.  (The chaining changes the \<open>__context__\<close> of the value, which objects here do not
    carry.)
  \<^item> The traceback is the one the value carries if it is an exception instance.
\<close>

definition handling :: "py_object \<Rightarrow> bool" where
  "handling handled = (handled \<noteq> Null \<and> handled \<noteq> Py_None)"

definition PyErr_SetObject ::
  "py_object \<Rightarrow> py_object \<Rightarrow> py_object \<Rightarrow> py_object \<times> py_object \<times> py_object" where
  "PyErr_SetObject handled exc_type val =
     (let (t, v) = (if \<not> PyExceptionClass_Check exc_type
                    then (SystemError_type, SystemError_message exc_type)
                    else (exc_type, val));
          v1 = (if handling handled \<and> \<not> PyExceptionInstance_Check v then Instance_of t else v)
      in (t, v1, if PyExceptionInstance_Check v1 then PyException_GetTraceback v1 else Null))"

text \<open>
  The two methods bound in \<open>DefinePromiseAttributes\<close>.  \<open>set_result\<close> stores the value.
  \<open>set_exception\<close> calls \<open>PyErr_SetObject\<close> with the type of its argument and the argument;
  \<open>PyErr_Fetch\<close> then moves the three parts of the indicator into the error members of a
  record without a value, leaving the indicator clear, and the record is stored.
  \<open>set_exception_value\<close> is that record.  The first argument is the exception that the
  calling thread is handling.
\<close>

definition set_result :: "py_object \<Rightarrow> PythonFuture \<Rightarrow> PythonFuture" where
  "set_result result self =
     SetResult \<lparr>value_obj = result, error_type = Null, error_value = Null,
                error_traceback = Null\<rparr> self"

definition set_exception_value :: "py_object \<Rightarrow> py_object \<Rightarrow> PythonValueOrException" where
  "set_exception_value handled exc =
     (case PyErr_SetObject handled (TypeOf exc) exc of
        (t, v, tb) \<Rightarrow>
          \<lparr>value_obj = Null, error_type = t, error_value = v, error_traceback = tb\<rparr>)"

definition set_exception :: "py_object \<Rightarrow> py_object \<Rightarrow> PythonFuture \<Rightarrow> PythonFuture" where
  "set_exception handled exc self = SetResult (set_exception_value handled exc) self"

text \<open>
  A call of a producer, and the record it passes to \<open>SetResult\<close>.  A call of
  \<open>set_exception\<close> comes with the exception that the calling thread is handling.
\<close>

datatype promise_call = Set_result py_object | Set_exception py_object py_object

fun promise_step :: "promise_call \<Rightarrow> PythonFuture \<Rightarrow> PythonFuture" where
  "promise_step (Set_result v) self = set_result v self"
| "promise_step (Set_exception h e) self = set_exception h e self"

fun written :: "promise_call \<Rightarrow> PythonValueOrException" where
  "written (Set_result v) =
     \<lparr>value_obj = v, error_type = Null, error_value = Null, error_traceback = Null\<rparr>"
| "written (Set_exception h e) = set_exception_value h e"

text \<open>
  Modelled from the spec: \<open>done\<close> (here \<open>done_future\<close>) is defined in
  \<open>python/tensorstore/future.h\<close>, which is not among the sources.  The spec (4.4): true iff
  the channel is not Pending.
\<close>

definition done_future :: "PythonFuture \<Rightarrow> bool" where
  "done_future self = (future self \<noteq> Unset)"

text \<open>
  Modelled from the spec: \<open>cancelled\<close> is defined in \<open>python/tensorstore/future.h\<close>, which is
  not among the sources.  The spec (4.4): true iff the state is Cancelled.
\<close>

definition cancelled :: "PythonFuture \<Rightarrow> bool" where
  "cancelled self = (future self = Cancelled)"

text \<open>
  Modelled from the spec: \<open>add_done_callback\<close> is defined in \<open>python/tensorstore/future.h\<close>,
  which is not among the sources.  The spec (4.3): it appends; if the slot is already
  terminal, it invokes the callback immediately instead of storing it.
\<close>

definition add_done_callback :: "callback \<Rightarrow> PythonFuture \<Rightarrow> PythonFuture" where
  "add_done_callback cb self =
     (if done_future self then self\<lparr>trace := trace self @ [Called (ptr cb)]\<rparr>
      else self\<lparr>callbacks := callbacks self @ [cb]\<rparr>)"

section \<open>The intrusive list of cancel-callbacks and \<open>RunCancelCallbacks\<close>\<close>

text \<open>Reading or writing through a pointer to storage that holds no live node.\<close>

datatype fault = InvalidAccess

text \<open>
  Modelled from the spec: \<open>intrusive_linked_list::Remove\<close> is declared in
  \<open>tensorstore/internal/intrusive_linked_list.h\<close>, which is not among the sources.  The spec
  (3, 9): the registry is a raw doubly-linked list whose nodes unlink themselves; unlinking
  makes the node's two neighbours point at each other and leaves the node's own links alone.
\<close>

definition Remove :: "addr \<Rightarrow> memory \<Rightarrow> fault + memory" where
  "Remove node m =
     (case m node of
        None \<Rightarrow> Inl InvalidAccess
      | Some n \<Rightarrow>
          (case m (nxt n) of
             None \<Rightarrow> Inl InvalidAccess
           | Some after \<Rightarrow>
               (let m1 = m(nxt n \<mapsto> after\<lparr>prv := prv n\<rparr>) in
                case m1 (prv n) of
                  None \<Rightarrow> Inl InvalidAccess
                | Some before \<Rightarrow> Inr (m1(prv n \<mapsto> before\<lparr>nxt := nxt n\<rparr>)))))"

text \<open>
  Modelled from the spec: \<open>intrusive_linked_list::Initialize\<close>, which the constructor of
  \<open>PythonFutureBase\<close> calls on \<open>cancel_callbacks_\<close>, is declared in
  \<open>tensorstore/internal/intrusive_linked_list.h\<close>, which is not among the sources.  The spec
  (2, 4.2): the registry starts empty, which for a ring is a sentinel linked to itself.  The
  sentinel has no closure; its \<open>callback\<close> member is never read.
\<close>

definition Initialize :: "addr \<Rightarrow> memory \<Rightarrow> memory" where
  "Initialize node m = m(node \<mapsto> \<lparr>nxt = node, prv = node, callback = Notify\<rparr>)"

text \<open>
  Modelled from the spec: registering a cancel-callback, the constructor of \<open>CancelCallback\<close>,
  is declared in \<open>python/tensorstore/future.h\<close>, which is not among the sources.  The spec
  (4.2): \<open>register\<close> appends a node, that is, it links the new node in before the sentinel.
\<close>

definition InsertBefore :: "addr \<Rightarrow> addr \<Rightarrow> cancel_action \<Rightarrow> memory \<Rightarrow> fault + memory" where
  "InsertBefore existing_node new_node f m =
     (case m existing_node of
        None \<Rightarrow> Inl InvalidAccess
      | Some e \<Rightarrow>
          (let m1 = m(new_node \<mapsto> \<lparr>nxt = existing_node, prv = prv e, callback = f\<rparr>) in
           case m1 (prv e) of
             None \<Rightarrow> Inl InvalidAccess
           | Some before \<Rightarrow>
               (let m2 = m1(prv e \<mapsto> before\<lparr>nxt := new_node\<rparr>) in
                case m2 existing_node of
                  None \<Rightarrow> Inl InvalidAccess
                | Some e2 \<Rightarrow> Inr (m2(existing_node \<mapsto> e2\<lparr>prv := new_node\<rparr>)))))"

text \<open>
  Calling the closure of the node at \<open>node\<close>.  \<open>Notify\<close> leaves the list alone.  \<open>UnlinkSelf\<close>
  ends the lifetime of its own \<open>CancelCallback\<close>: the destructor unlinks the node and its
  storage is gone afterwards.
\<close>

fun call_cancel_callback :: "cancel_action \<Rightarrow> addr \<Rightarrow> memory \<Rightarrow> fault + memory" where
  "call_cancel_callback Notify node m = Inr m"
| "call_cancel_callback UnlinkSelf node m =
     (case Remove node m of Inl f \<Rightarrow> Inl f | Inr m' \<Rightarrow> Inr (m'(node := None)))"

text \<open>
  The \<open>for\<close> loop of \<open>RunCancelCallbacks\<close>, from the node \<open>cb\<close> on: stop at the sentinel;
  otherwise read \<open>cb->next\<close>, call the closure of \<open>cb\<close>, and go on with the pointer read
  before the call.  A list whose links never lead back to the sentinel keeps the loop running
  forever, which is the value \<open>None\<close>.
\<close>

partial_function (option) RunCancelCallbacks_loop ::
  "addr \<Rightarrow> addr \<Rightarrow> memory \<Rightarrow> event list \<Rightarrow> (fault + memory \<times> event list) option" where
  "RunCancelCallbacks_loop sentinel cb m tr =
     (if cb = sentinel then Some (Inr (m, tr))
      else case m cb of
             None \<Rightarrow> Some (Inl InvalidAccess)
           | Some node \<Rightarrow>
               (let next = nxt node in
                case call_cancel_callback (callback node) cb m of
                  Inl f \<Rightarrow> Some (Inl f)
                | Inr m' \<Rightarrow> RunCancelCallbacks_loop sentinel next m' (tr @ [CancelCalled cb])))"

definition RunCancelCallbacks ::
  "'a PythonFutureBase_scheme \<Rightarrow> (fault + 'a PythonFutureBase_scheme) option" where
  "RunCancelCallbacks self =
     (case mem self (cancel_callbacks self) of
        None \<Rightarrow> Some (Inl InvalidAccess)
      | Some sentinel_node \<Rightarrow>
          (case RunCancelCallbacks_loop (cancel_callbacks self) (nxt sentinel_node)
                  (mem self) (trace self) of
             None \<Rightarrow> None
           | Some (Inl f) \<Rightarrow> Some (Inl f)
           | Some (Inr (m, tr)) \<Rightarrow> Some (Inr (self\<lparr>mem := m, trace := tr\<rparr>))))"

text \<open>
  A well-formed list.  \<open>dpath m p a xs b\<close>: starting at \<open>a\<close>, whose predecessor is \<open>p\<close>, the
  \<open>next\<close> pointers visit exactly the live nodes \<open>xs\<close> and then reach \<open>b\<close>, and every visited
  node's \<open>prev\<close> points at the node visited before it.  \<open>dll m s xs\<close>: the nodes \<open>xs\<close> are
  linked in this order in a ring through the sentinel \<open>s\<close>.
\<close>

fun dpath :: "memory \<Rightarrow> addr \<Rightarrow> addr \<Rightarrow> addr list \<Rightarrow> addr \<Rightarrow> bool" where
  "dpath m p a [] b = (a = b)"
| "dpath m p a (x # xs) b =
     (a = x \<and> (case m x of None \<Rightarrow> False | Some n \<Rightarrow> prv n = p \<and> dpath m x (nxt n) xs b))"

definition dll :: "memory \<Rightarrow> addr \<Rightarrow> addr list \<Rightarrow> bool" where
  "dll m s xs =
     (distinct (s # xs) \<and>
      (case m s of None \<Rightarrow> False | Some n \<Rightarrow> dpath m s (nxt n) xs s \<and> prv n = last (s # xs)))"

text \<open>The nodes of a list whose closure only notifies.\<close>

definition notifies :: "memory \<Rightarrow> addr \<Rightarrow> bool" where
  "notifies m a = (case m a of None \<Rightarrow> False | Some n \<Rightarrow> callback n = Notify)"

section \<open>Cancellation and the calls made on a channel\<close>

text \<open>
  Modelled from the spec: \<open>cancel\<close> is defined in \<open>python/tensorstore/future.h\<close>, which is not
  among the sources.  The spec (4.4): if Pending, it transitions to Cancelled, fires the
  cancel-callback list, then fires the done-callback list; the two lists are fired by
  \<open>RunCancelCallbacks\<close> and \<open>RunCallbacks\<close> above.  On a terminal channel it does nothing.
\<close>

definition cancel :: "PythonFuture \<Rightarrow> (fault + PythonFuture) option" where
  "cancel self =
     (if future self \<noteq> Unset then Some (Inr self)
      else case RunCancelCallbacks (self\<lparr>future := Cancelled\<rparr>) of
             None \<Rightarrow> None
           | Some (Inl f) \<Rightarrow> Some (Inl f)
           | Some (Inr self1) \<Rightarrow> Some (Inr (RunCallbacks self1)))"

text \<open>The cancel-callbacks a trace shows as called, in the order of the calls.\<close>

fun cancel_called :: "event list \<Rightarrow> addr list" where
  "cancel_called [] = []"
| "cancel_called (CancelCalled a # tr) = a # cancel_called tr"
| "cancel_called (e # tr) = cancel_called tr"

text \<open>
  A call made on the channel by a consumer or a producer, and a sequence of such calls run
  one after the other; a fault or a call that does not return ends the run.
\<close>

datatype channel_call =
    Add_done_callback callback
  | Promise_call promise_call
  | Cancel_call

fun channel_step :: "channel_call \<Rightarrow> PythonFuture \<Rightarrow> (fault + PythonFuture) option" where
  "channel_step (Add_done_callback cb) self = Some (Inr (add_done_callback cb self))"
| "channel_step (Promise_call w) self = Some (Inr (promise_step w self))"
| "channel_step Cancel_call self = cancel self"

fun run_calls :: "channel_call list \<Rightarrow> PythonFuture \<Rightarrow> (fault + PythonFuture) option" where
  "run_calls [] self = Some (Inr self)"
| "run_calls (c # cs) self =
     (case channel_step c self of
        None \<Rightarrow> None
      | Some (Inl f) \<Rightarrow> Some (Inl f)
      | Some (Inr self1) \<Rightarrow> run_calls cs self1)"

fun added :: "channel_call list \<Rightarrow> callback list" where
  "added [] = []"
| "added (Add_done_callback cb # cs) = cb # added cs"
| "added (c # cs) = added cs"

fun is_add :: "channel_call \<Rightarrow> bool" where
  "is_add (Add_done_callback cb) = True"
| "is_add c = False"

section \<open>The blocking interface: \<open>result\<close> and \<open>exception\<close>\<close>

text \<open>
  Modelled from the spec: the wait that \<open>result\<close> and \<open>exception\<close> share is defined in
  \<open>python/tensorstore/future.h\<close>, which is not among the sources.  The spec (4.4): if the
  future is not done, the call blocks via the interruptible wait, given the future for the
  cancellation check, until done or failure.  While a thread waits, other threads write the
  slot: \<open>slot_at n\<close> is the slot as it is when the \<open>n\<close>-th wait returns.
\<close>

definition awaited_slot ::
  "wait_env \<Rightarrow> (nat \<Rightarrow> ResultSlot) \<Rightarrow> PythonFuture \<Rightarrow> (cpp_exception + ResultSlot) option" where
  "awaited_slot env slot_at self =
     (if done_future self then Some (Inr (future self))
      else case InterruptibleWaitImpl env (Some (\<lambda>n. slot_at n = Cancelled)) of
             None \<Rightarrow> None
           | Some (Inl e) \<Rightarrow> Some (Inl e)
           | Some (Inr n) \<Rightarrow> Some (Inr (slot_at n)))"

text \<open>
  Modelled from the spec: \<open>result\<close> is defined in \<open>python/tensorstore/future.h\<close>, which is not
  among the sources.  The spec (4.4): after the wait, on Cancelled it fails with a
  cancellation error, on Completed with an error it re-raises that error, else it returns the
  value; the last two are what the type caster does.  Reading the result of a slot that is
  still unset does not return.
\<close>

definition result ::
  "wait_env \<Rightarrow> (nat \<Rightarrow> ResultSlot) \<Rightarrow> PythonFuture \<Rightarrow> (cpp_exception + py_object) option" where
  "result env slot_at self =
     (case awaited_slot env slot_at self of
        None \<Rightarrow> None
      | Some (Inl e) \<Rightarrow> Some (Inl e)
      | Some (Inr Unset) \<Rightarrow> None
      | Some (Inr Cancelled) \<Rightarrow> Some ThrowCancelledError
      | Some (Inr (Completed r)) \<Rightarrow> Some (cast r))"

text \<open>
  Modelled from the spec: \<open>exception\<close> is defined in \<open>python/tensorstore/future.h\<close>, which is
  not among the sources.  The spec (4.4, 8): the same wait, but it returns the error (or
  none) instead of raising; on a cancelled future it returns a \<open>CancelledError\<close> instance,
  which \<open>GetCancelledError\<close> makes.
\<close>

definition exception ::
  "wait_env \<Rightarrow> (nat \<Rightarrow> ResultSlot) \<Rightarrow> PythonFuture \<Rightarrow> (cpp_exception + py_object) option" where
  "exception env slot_at self =
     (case awaited_slot env slot_at self of
        None \<Rightarrow> None
      | Some (Inl e) \<Rightarrow> Some (Inl e)
      | Some (Inr Unset) \<Rightarrow> None
      | Some (Inr Cancelled) \<Rightarrow> Some (Inr GetCancelledError)
      | Some (Inr (Completed r)) \<Rightarrow>
          Some (Inr (if value_obj r = Null then error_value r else Py_None)))"

section \<open>The event-loop bridge: \<open>get_await_result\<close>\<close>











section \<open>Properties of the done-callback list\<close>

lemma called_append: "called (tr1 @ tr2) = called tr1 @ called tr2"
  by (induction tr1 rule: called.induct) simp_all

lemma called_RunCallbacks_loop:
  "called (RunCallbacks_loop cs tr) = called tr @ map ptr cs"
proof (induction cs arbitrary: tr)
  case Nil
  show ?case by simp
next
  case (Cons c cs)
  show ?case
  proof (cases "outcome c")
    case Returns
    then show ?thesis by (simp add: Cons.IH called_append)
  next
    case (Throws x)
    then show ?thesis by (cases x) (simp_all add: Cons.IH called_append)
  qed
qed

lemma time_less_irrefl: "\<not> time_less a a"
  by (cases a) simp_all

lemma time_less_asym: "time_less a b \<Longrightarrow> \<not> time_less b a"
  by (cases a; cases b) simp_all

lemma std_min_InfiniteFuture: "std_min InfiniteFuture b = b"
  by (cases b) (simp_all add: std_min_def)

text \<open>
  Claim C5.  \<open>remove_done_callback(cb)\<close> removes every stored callback whose identity is that
  of \<open>cb\<close> and keeps the others in order, returns the number removed (which is 0, with the
  list unchanged, when none matches; the function has no failing branch), and when the
  remaining list is empty the listener registration is unregistered, while a non-empty
  remainder leaves the registration as it was.
\<close>

theorem remove_done_callback_removes_all_matching:
  assumes "remove_done_callback cb self = (n, self')"
  shows "callbacks self' = filter (\<lambda>h. ptr h \<noteq> cb) (callbacks self)
       \<and> cb \<notin> ptr ` set (callbacks self')
       \<and> n = length (filter (\<lambda>h. ptr h = cb) (callbacks self))
       \<and> (cb \<notin> ptr ` set (callbacks self) \<longrightarrow> n = 0 \<and> callbacks self' = callbacks self)
       \<and> (callbacks self' = [] \<longrightarrow> \<not> registration self')
       \<and> (callbacks self' \<noteq> [] \<longrightarrow> registration self' = registration self)
       \<and> trace self' = trace self"
proof -
  let ?kept = "filter (\<lambda>h. ptr h \<noteq> cb) (callbacks self)"
  have n: "n = length (callbacks self) - length ?kept"
    using assms by (simp add: remove_done_callback_def Let_def)
  have cbs: "callbacks self' = ?kept"
    using assms by (auto simp: remove_done_callback_def Let_def split: if_splits)
  have reg1: "callbacks self' = [] \<longrightarrow> \<not> registration self'"
    using assms by (auto simp: remove_done_callback_def Let_def split: if_splits)
  have reg2: "callbacks self' \<noteq> [] \<longrightarrow> registration self' = registration self"
    using assms by (auto simp: remove_done_callback_def Let_def split: if_splits)
  have tr: "trace self' = trace self"
    using assms by (auto simp: remove_done_callback_def Let_def split: if_splits)
  have len: "length (callbacks self) =
      length (filter (\<lambda>h. ptr h = cb) (callbacks self)) + length ?kept"
    using sum_length_filter_compl [of "\<lambda>h. ptr h = cb" "callbacks self"] by simp
  have cnt: "n = length (filter (\<lambda>h. ptr h = cb) (callbacks self))"
    using n len by simp
  have none: "cb \<notin> ptr ` set (callbacks self) \<longrightarrow> n = 0 \<and> callbacks self' = callbacks self"
  proof
    assume a: "cb \<notin> ptr ` set (callbacks self)"
    then have "\<forall>h \<in> set (callbacks self). ptr h \<noteq> cb" by auto
    then have "?kept = callbacks self" by (simp add: filter_id_conv)
    then show "n = 0 \<and> callbacks self' = callbacks self" using n cbs by simp
  qed
  have gone: "cb \<notin> ptr ` set (callbacks self')"
    using cbs by auto
  show ?thesis using cbs gone cnt none reg1 reg2 tr by blast
qed

theorem remove_done_callback_witness:
  "remove_done_callback 7
     \<lparr>callbacks = [Callback 7 Returns, Callback 3 Returns, Callback 7 Returns],
      registration = True, cancel_callbacks = 0, mem = Map.empty, trace = []\<rparr>
   = (2, \<lparr>callbacks = [Callback 3 Returns], registration = True, cancel_callbacks = 0,
          mem = Map.empty, trace = []\<rparr>)
   \<and> remove_done_callback 7
     \<lparr>callbacks = [Callback 7 Returns], registration = True, cancel_callbacks = 0,
      mem = Map.empty, trace = []\<rparr>
   = (1, \<lparr>callbacks = [], registration = False, cancel_callbacks = 0,
          mem = Map.empty, trace = []\<rparr>)
   \<and> callbacks (snd (remove_done_callback 7
     \<lparr>callbacks = [Callback 7 Returns, Callback 3 Returns, Callback 7 Returns],
      registration = True, cancel_callbacks = 0, mem = Map.empty, trace = []\<rparr>))
     = filter (\<lambda>h. ptr h \<noteq> 7) [Callback 7 Returns, Callback 3 Returns, Callback 7 Returns]"
proof -
  let ?s = "\<lparr>callbacks = [Callback 7 Returns, Callback 3 Returns, Callback 7 Returns],
      registration = True, cancel_callbacks = 0, mem = Map.empty, trace = []\<rparr>"
  have e: "remove_done_callback 7 ?s = (fst (remove_done_callback 7 ?s), snd (remove_done_callback 7 ?s))"
    by simp
  show ?thesis
    using remove_done_callback_removes_all_matching [OF e]
    by (simp add: remove_done_callback_def Let_def)
qed

text \<open>
  Claim C6.  During the dispatch of \<open>RunCallbacks\<close> a callback that throws, whether a Python
  error or anything else, is handled inside its own iteration and logged there: whatever the
  callbacks do, every callback of the list is called, once each and in the order of the list,
  the event right after the call of a throwing callback is its log entry, the list is
  left empty, and neither the registration, the memory nor the stored result of the future
  changes.  The function has no result besides the state, so nothing a callback throws
  leaves it.
\<close>

theorem RunCallbacks_calls_every_callback:
  "called (trace (RunCallbacks self)) = called (trace self) @ map ptr (callbacks self)
   \<and> (\<exists>tr. trace (RunCallbacks self) = trace self @ tr
          \<and> tr = concat (map (\<lambda>c. case outcome c of
                                     Returns \<Rightarrow> [Called (ptr c)]
                                   | Throws (error_already_set e) \<Rightarrow> [Called (ptr c), WriteUnraisable e]
                                   | Throws other_exception \<Rightarrow> [Called (ptr c), LogUnexpected])
                              (callbacks self)))
   \<and> callbacks (RunCallbacks self) = []
   \<and> registration (RunCallbacks self) = registration self
   \<and> mem (RunCallbacks self) = mem self
   \<and> PythonFutureBase.more (RunCallbacks self) = PythonFutureBase.more self
   \<and> future (RunCallbacks fut) = future fut"
proof -
  let ?f = "\<lambda>c. case outcome c of
                                     Returns \<Rightarrow> [Called (ptr c)]
                                   | Throws (error_already_set e) \<Rightarrow> [Called (ptr c), WriteUnraisable e]
                                   | Throws other_exception \<Rightarrow> [Called (ptr c), LogUnexpected]"
  have loop: "RunCallbacks_loop cs tr = tr @ concat (map ?f cs)" for cs tr
  proof (induction cs arbitrary: tr)
    case Nil
    show ?case by simp
  next
    case (Cons c cs)
    show ?case
    proof (cases "outcome c")
      case Returns
      then show ?thesis by (simp add: Cons.IH)
    next
      case (Throws x)
      then show ?thesis by (cases x) (simp_all add: Cons.IH)
    qed
  qed
  have a: "called (trace (RunCallbacks self)) = called (trace self) @ map ptr (callbacks self)"
    by (simp add: RunCallbacks_def Let_def called_RunCallbacks_loop)
  have b: "trace (RunCallbacks self) = trace self @ concat (map ?f (callbacks self))"
    by (simp add: RunCallbacks_def Let_def loop)
  have c: "callbacks (RunCallbacks self) = []
      \<and> registration (RunCallbacks self) = registration self
      \<and> mem (RunCallbacks self) = mem self
      \<and> PythonFutureBase.more (RunCallbacks self) = PythonFutureBase.more self"
    by (simp add: RunCallbacks_def Let_def)
  have d: "future (RunCallbacks fut) = future fut"
    by (simp add: RunCallbacks_def Let_def)
  show ?thesis using a b c d by blast
qed

theorem RunCallbacks_witness:
  "RunCallbacks
     \<lparr>callbacks = [Callback 1 (Throws (error_already_set (Raised (Object 7)))),
                   Callback 2 (Throws other_exception), Callback 3 Returns],
      registration = True, cancel_callbacks = 0, mem = Map.empty, trace = [],
      future = Completed \<lparr>value_obj = Object 5, error_type = Null, error_value = Null,
                            error_traceback = Null\<rparr>\<rparr>
   = \<lparr>callbacks = [], registration = True, cancel_callbacks = 0, mem = Map.empty,
      trace = [Called 1, WriteUnraisable (Raised (Object 7)), Called 2, LogUnexpected, Called 3],
      future = Completed \<lparr>value_obj = Object 5, error_type = Null, error_value = Null,
                            error_traceback = Null\<rparr>\<rparr>"
proof -
  let ?r = "\<lparr>value_obj = Object 5, error_type = Null, error_value = Null,
                            error_traceback = Null\<rparr>"
  let ?s = "\<lparr>callbacks = [Callback 1 (Throws (error_already_set (Raised (Object 7)))),
                   Callback 2 (Throws other_exception), Callback 3 Returns],
      registration = True, cancel_callbacks = 0, mem = Map.empty, trace = [],
      future = Completed ?r\<rparr>"
  obtain tr where t: "trace (RunCallbacks ?s) = trace ?s @ tr"
    "tr = concat (map (\<lambda>c. case outcome c of
                                     Returns \<Rightarrow> [Called (ptr c)]
                                   | Throws (error_already_set e) \<Rightarrow> [Called (ptr c), WriteUnraisable e]
                                   | Throws other_exception \<Rightarrow> [Called (ptr c), LogUnexpected])
                              (callbacks ?s))"
    and rest: "callbacks (RunCallbacks ?s) = []" "registration (RunCallbacks ?s) = registration ?s"
      "mem (RunCallbacks ?s) = mem ?s"
      "PythonFutureBase.more (RunCallbacks ?s) = PythonFutureBase.more ?s"
    using RunCallbacks_calls_every_callback [of ?s] by blast
  have "trace (RunCallbacks ?s)
      = [Called 1, WriteUnraisable (Raised (Object 7)), Called 2, LogUnexpected, Called 3]"
    using t by simp
  moreover have "cancel_callbacks (RunCallbacks ?s) = 0"
    by (simp add: RunCallbacks_def Let_def)
  ultimately show ?thesis using rest
    by (cases "RunCallbacks ?s") simp
qed

text \<open>
  Claim C9.  \<open>GetWaitDeadline\<close> returns the infinite future when neither argument is given,
  the Unix epoch plus the deadline's seconds when only the deadline is given, now plus the
  timeout's seconds when only the timeout is given, and with both the earlier of the two
  instants: the result is one of the two and is not later than either.
\<close>

theorem GetWaitDeadline_cases:
  "GetWaitDeadline Seconds Now None None = InfiniteFuture
   \<and> GetWaitDeadline Seconds Now None (Some d) = time_plus UnixEpoch (Seconds d)
   \<and> GetWaitDeadline Seconds Now (Some t) None = time_plus Now (Seconds t)
   \<and> GetWaitDeadline Seconds Now (Some t) (Some d)
       = std_min (time_plus UnixEpoch (Seconds d)) (time_plus Now (Seconds t))
   \<and> time_le (GetWaitDeadline Seconds Now (Some t) (Some d)) (time_plus UnixEpoch (Seconds d))
   \<and> time_le (GetWaitDeadline Seconds Now (Some t) (Some d)) (time_plus Now (Seconds t))
   \<and> (GetWaitDeadline Seconds Now (Some t) (Some d) = time_plus UnixEpoch (Seconds d)
      \<or> GetWaitDeadline Seconds Now (Some t) (Some d) = time_plus Now (Seconds t))"
proof -
  let ?a = "time_plus UnixEpoch (Seconds d)"
  let ?b = "time_plus Now (Seconds t)"
  have both: "GetWaitDeadline Seconds Now (Some t) (Some d) = std_min ?a ?b"
    by (simp add: GetWaitDeadline_def)
  have le_a: "time_le (std_min ?a ?b) ?a"
    by (simp add: std_min_def time_le_def time_less_asym time_less_irrefl)
  have le_b: "time_le (std_min ?a ?b) ?b"
    by (simp add: std_min_def time_le_def time_less_irrefl)
  have one: "std_min ?a ?b = ?a \<or> std_min ?a ?b = ?b"
    by (simp add: std_min_def)
  have none: "GetWaitDeadline Seconds Now None None = InfiniteFuture"
    by (simp add: GetWaitDeadline_def)
  have dl: "GetWaitDeadline Seconds Now None (Some d) = ?a"
    by (simp add: GetWaitDeadline_def)
  have tmo: "GetWaitDeadline Seconds Now (Some t) None = ?b"
    by (simp add: GetWaitDeadline_def std_min_InfiniteFuture)
  show ?thesis using none dl tmo both le_a le_b one by simp
qed

theorem GetWaitDeadline_witness:
  "GetWaitDeadline Ticks (At 100) (Some 5) (Some 50) = At 50
   \<and> GetWaitDeadline Ticks (At 100) (Some 5) (Some 500) = At 105
   \<and> GetWaitDeadline Ticks (At 100) (Some 5) None = At 105
   \<and> GetWaitDeadline Ticks (At 100) None (Some 50) = At 50
   \<and> GetWaitDeadline Ticks (At 100) None None = InfiniteFuture"
  using GetWaitDeadline_cases [of Ticks "At 100" 50 5]
    GetWaitDeadline_cases [of Ticks "At 100" 500 5]
  by (simp add: std_min_def UnixEpoch_def)

section \<open>Properties of the interruptible wait\<close>

lemma loop_spurious_step:
  "spurious env n \<Longrightarrow>
   InterruptibleWaitImpl_loop env pf n = InterruptibleWaitImpl_loop env pf (Suc n)"
  by (subst InterruptibleWaitImpl_loop.simps) (simp add: spurious_def)

lemma loop_skip_spurious:
  "(\<And>k. k < m \<Longrightarrow> spurious env (n + k)) \<Longrightarrow>
   InterruptibleWaitImpl_loop env pf n = InterruptibleWaitImpl_loop env pf (n + m)"
proof (induction m arbitrary: n)
  case 0
  show ?case by simp
next
  case (Suc m)
  have s: "spurious env n" using Suc.prems [of 0] by simp
  have "InterruptibleWaitImpl_loop env pf (Suc n) = InterruptibleWaitImpl_loop env pf (Suc n + m)"
  proof (rule Suc.IH)
    fix k assume "k < m"
    then show "spurious env (Suc n + k)" using Suc.prems [of "Suc k"] by simp
  qed
  then show ?case using loop_spurious_step [OF s, of pf] by simp
qed

lemma loop_decided:
  "\<not> spurious env n \<Longrightarrow> InterruptibleWaitImpl_loop env pf n \<noteq> None"
  by (subst InterruptibleWaitImpl_loop.simps)
     (auto simp: spurious_def ThrowCancelledError_def ThrowTimeoutError_def
           split: ScopedEventWaitResult.splits)

text \<open>
  Claim C2.  One pass of the loop of \<open>InterruptibleWaitImpl\<close>: a wait that returns Timeout
  fails with the timeout error; one that returns Success fails with the cancellation error
  when there is a future and it reports cancelled, and returns normally otherwise; one that
  returns Interrupted re-checks the pending signals, fails with the pending error when there
  is one and otherwise goes round again.  So any number of spurious wake-ups is skipped, and
  the call returns as soon as a wait is not a spurious wake-up.
\<close>

theorem InterruptibleWaitImpl_loop_outcomes:
  "(Wait env n = kTimeout \<longrightarrow>
      InterruptibleWaitImpl_loop env pf n = Some (Inl (error_already_set TimeoutError)))
   \<and> (Wait env n = kSuccess \<longrightarrow>
      InterruptibleWaitImpl_loop env pf n =
        Some (if (case pf of None \<Rightarrow> False | Some is_cancelled \<Rightarrow> is_cancelled n)
              then Inl (error_already_set CancelledError) else Inr n))
   \<and> (Wait env n = kInterrupt \<and> PyErr_CheckSignals env n = - 1 \<longrightarrow>
      InterruptibleWaitImpl_loop env pf n = Some (Inl (error_already_set SignalHandlerError)))
   \<and> (Wait env n = kInterrupt \<and> PyErr_CheckSignals env n \<noteq> - 1 \<longrightarrow>
      InterruptibleWaitImpl_loop env pf n = InterruptibleWaitImpl_loop env pf (Suc n))
   \<and> ((\<forall>k<m. Wait env (n + k) = kInterrupt \<and> PyErr_CheckSignals env (n + k) \<noteq> - 1) \<longrightarrow>
      InterruptibleWaitImpl_loop env pf n = InterruptibleWaitImpl_loop env pf (n + m))
   \<and> ((\<forall>k<m. Wait env (n + k) = kInterrupt \<and> PyErr_CheckSignals env (n + k) \<noteq> - 1)
       \<and> \<not> (Wait env (n + m) = kInterrupt \<and> PyErr_CheckSignals env (n + m) \<noteq> - 1) \<longrightarrow>
      (\<exists>r. InterruptibleWaitImpl_loop env pf n = Some r))"
proof -
  have t: "Wait env n = kTimeout \<longrightarrow>
      InterruptibleWaitImpl_loop env pf n = Some (Inl (error_already_set TimeoutError))"
    by (subst InterruptibleWaitImpl_loop.simps) (simp add: ThrowTimeoutError_def)
  have s: "Wait env n = kSuccess \<longrightarrow>
      InterruptibleWaitImpl_loop env pf n =
        Some (if (case pf of None \<Rightarrow> False | Some is_cancelled \<Rightarrow> is_cancelled n)
              then Inl (error_already_set CancelledError) else Inr n)"
    by (subst InterruptibleWaitImpl_loop.simps) (simp add: ThrowCancelledError_def)
  have i1: "Wait env n = kInterrupt \<and> PyErr_CheckSignals env n = - 1 \<longrightarrow>
      InterruptibleWaitImpl_loop env pf n = Some (Inl (error_already_set SignalHandlerError))"
    by (subst InterruptibleWaitImpl_loop.simps) simp
  have i2: "Wait env n = kInterrupt \<and> PyErr_CheckSignals env n \<noteq> - 1 \<longrightarrow>
      InterruptibleWaitImpl_loop env pf n = InterruptibleWaitImpl_loop env pf (Suc n)"
    using loop_spurious_step [of env n pf] by (simp add: spurious_def)
  have skip: "(\<forall>k<m. Wait env (n + k) = kInterrupt \<and> PyErr_CheckSignals env (n + k) \<noteq> - 1) \<longrightarrow>
      InterruptibleWaitImpl_loop env pf n = InterruptibleWaitImpl_loop env pf (n + m)"
    using loop_skip_spurious [of m env n pf] by (simp add: spurious_def)
  have fin: "(\<forall>k<m. Wait env (n + k) = kInterrupt \<and> PyErr_CheckSignals env (n + k) \<noteq> - 1)
       \<and> \<not> (Wait env (n + m) = kInterrupt \<and> PyErr_CheckSignals env (n + m) \<noteq> - 1) \<longrightarrow>
      (\<exists>r. InterruptibleWaitImpl_loop env pf n = Some r)"
    using skip loop_decided [of env "n + m" pf] by (auto simp: spurious_def)
  show ?thesis using t s i1 i2 skip fin by blast
qed


theorem InterruptibleWaitImpl_loop_witness:
  "InterruptibleWaitImpl_loop
     \<lparr>Wait = (\<lambda>n. if n < 2 then kInterrupt else kSuccess), PyErr_CheckSignals = (\<lambda>n. 0)\<rparr>
     (Some (\<lambda>n. False)) 0 = Some (Inr 2)
   \<and> InterruptibleWaitImpl_loop
     \<lparr>Wait = (\<lambda>n. if n < 2 then kInterrupt else kSuccess), PyErr_CheckSignals = (\<lambda>n. 0)\<rparr>
     (Some (\<lambda>n. True)) 0 = Some (Inl (error_already_set CancelledError))
   \<and> InterruptibleWaitImpl_loop
     \<lparr>Wait = (\<lambda>n. if n < 1 then kInterrupt else kTimeout), PyErr_CheckSignals = (\<lambda>n. 0)\<rparr>
     None 0 = Some (Inl (error_already_set TimeoutError))
   \<and> InterruptibleWaitImpl_loop
     \<lparr>Wait = (\<lambda>n. kInterrupt), PyErr_CheckSignals = (\<lambda>n. if n < 3 then 0 else - 1)\<rparr>
     None 0 = Some (Inl (error_already_set SignalHandlerError))"
proof -
  let ?e = "\<lparr>Wait = (\<lambda>n. if n < 2 then kInterrupt else kSuccess), PyErr_CheckSignals = (\<lambda>n. 0)\<rparr>"
  let ?t = "\<lparr>Wait = (\<lambda>n. if n < 1 then kInterrupt else kTimeout), PyErr_CheckSignals = (\<lambda>n. 0)\<rparr>"
  let ?i = "\<lparr>Wait = (\<lambda>n. kInterrupt), PyErr_CheckSignals = (\<lambda>n. if n < 3 then 0 else - 1)\<rparr>"
  have pe: "\<forall>k<2. Wait ?e (0 + k) = kInterrupt \<and> PyErr_CheckSignals ?e (0 + k) \<noteq> - 1"
    by simp
  have se: "Wait ?e (0 + 2) = kSuccess"
    by simp
  have a: "InterruptibleWaitImpl_loop ?e (Some (\<lambda>n. False)) 0 = Some (Inr 2)"
  proof -
    have "InterruptibleWaitImpl_loop ?e (Some (\<lambda>n. False)) 0
        = InterruptibleWaitImpl_loop ?e (Some (\<lambda>n. False)) (0 + 2)"
      using InterruptibleWaitImpl_loop_outcomes [of ?e 0 "Some (\<lambda>n. False)" 2] pe by blast
    moreover have "InterruptibleWaitImpl_loop ?e (Some (\<lambda>n. False)) (0 + 2) = Some (Inr (0 + 2))"
      using InterruptibleWaitImpl_loop_outcomes [of ?e "0 + 2" "Some (\<lambda>n. False)" 0] se by simp
    ultimately show ?thesis by simp
  qed
  have b: "InterruptibleWaitImpl_loop ?e (Some (\<lambda>n. True)) 0
      = Some (Inl (error_already_set CancelledError))"
  proof -
    have "InterruptibleWaitImpl_loop ?e (Some (\<lambda>n. True)) 0
        = InterruptibleWaitImpl_loop ?e (Some (\<lambda>n. True)) (0 + 2)"
      using InterruptibleWaitImpl_loop_outcomes [of ?e 0 "Some (\<lambda>n. True)" 2] pe by blast
    moreover have "InterruptibleWaitImpl_loop ?e (Some (\<lambda>n. True)) (0 + 2)
        = Some (Inl (error_already_set CancelledError))"
      using InterruptibleWaitImpl_loop_outcomes [of ?e "0 + 2" "Some (\<lambda>n. True)" 0] se by simp
    ultimately show ?thesis by simp
  qed
  have pt: "\<forall>k<1. Wait ?t (0 + k) = kInterrupt \<and> PyErr_CheckSignals ?t (0 + k) \<noteq> - 1"
    by simp
  have st: "Wait ?t (0 + 1) = kTimeout"
    by simp
  have c: "InterruptibleWaitImpl_loop ?t None 0 = Some (Inl (error_already_set TimeoutError))"
  proof -
    have "InterruptibleWaitImpl_loop ?t None 0 = InterruptibleWaitImpl_loop ?t None (0 + 1)"
      using InterruptibleWaitImpl_loop_outcomes [of ?t 0 None 1] pt by blast
    moreover have "InterruptibleWaitImpl_loop ?t None (0 + 1)
        = Some (Inl (error_already_set TimeoutError))"
      using InterruptibleWaitImpl_loop_outcomes [of ?t "0 + 1" None 0] st by blast
    ultimately show ?thesis by simp
  qed
  have pi: "\<forall>k<3. Wait ?i (0 + k) = kInterrupt \<and> PyErr_CheckSignals ?i (0 + k) \<noteq> - 1"
    by simp
  have si: "Wait ?i (0 + 3) = kInterrupt \<and> PyErr_CheckSignals ?i (0 + 3) = - 1"
    by simp
  have d: "InterruptibleWaitImpl_loop ?i None 0
      = Some (Inl (error_already_set SignalHandlerError))"
  proof -
    have "InterruptibleWaitImpl_loop ?i None 0 = InterruptibleWaitImpl_loop ?i None (0 + 3)"
      using InterruptibleWaitImpl_loop_outcomes [of ?i 0 None 3] pi by blast
    moreover have "InterruptibleWaitImpl_loop ?i None (0 + 3)
        = Some (Inl (error_already_set SignalHandlerError))"
      using InterruptibleWaitImpl_loop_outcomes [of ?i "0 + 3" None 0] si by blast
    ultimately show ?thesis by simp
  qed
  show ?thesis using a b c d by simp
qed

section \<open>Properties of the Promise side\<close>

lemma SetResult_terminal: "future self \<noteq> Unset \<Longrightarrow> SetResult r self = self"
  by (simp add: SetResult_def)

lemma future_RunCallbacks: "future (RunCallbacks self) = future self"
  by (simp add: RunCallbacks_def Let_def)

lemma future_SetResult_Unset: "future self = Unset \<Longrightarrow> future (SetResult r self) = Completed r"
  by (simp add: SetResult_def future_RunCallbacks)

lemma promise_step_eq: "promise_step w self = SetResult (written w) self"
  by (cases w) (simp_all add: set_result_def set_exception_def)

lemma promise_step_terminal: "future self \<noteq> Unset \<Longrightarrow> promise_step w self = self"
  by (simp add: promise_step_eq SetResult_terminal)

lemma fold_promise_step_terminal:
  "future self \<noteq> Unset \<Longrightarrow> fold promise_step ws self = self"
  by (induction ws) (simp_all add: promise_step_terminal)



lemma set_exception_value_instance:
  "PyExceptionInstance_Check e \<Longrightarrow>
   set_exception_value h e = \<lparr>value_obj = Null, error_type = TypeOf e, error_value = e,
      error_traceback = PyException_GetTraceback e\<rparr>"
  by (simp add: set_exception_value_def PyErr_SetObject_def)

lemma set_exception_value_refused:
  "\<not> PyExceptionInstance_Check e \<Longrightarrow> \<not> handling h \<Longrightarrow>
   set_exception_value h e = \<lparr>value_obj = Null, error_type = SystemError_type,
      error_value = SystemError_message (TypeOf e), error_traceback = Null\<rparr>"
  by (simp add: set_exception_value_def PyErr_SetObject_def)

lemma set_exception_value_refused_handling:
  "\<not> PyExceptionInstance_Check e \<Longrightarrow> handling h \<Longrightarrow>
   set_exception_value h e = \<lparr>value_obj = Null, error_type = SystemError_type,
      error_value = Instance_of SystemError_type, error_traceback = Null\<rparr>"
  by (simp add: set_exception_value_def PyErr_SetObject_def)


text \<open>
  Claim C1.  Only the first call of \<open>set_result\<close> or \<open>set_exception\<close> takes effect.  On a
  channel that is already terminal a call changes nothing, and so does any sequence of calls.
  On an unset channel the first call stores its record and makes \<open>done\<close> true, and the state
  after any further calls is the state after the first: the slot changes at most once.  The
  record of \<open>set_result(v)\<close> is the value \<open>v\<close>.  The record of \<open>set_exception(e)\<close> is the error
  \<open>e\<close> with its type and the traceback it carries when \<open>e\<close> is an exception instance;
  otherwise it is the \<open>SystemError\<close> with which the runtime refuses \<open>e\<close>, whose value is the
  message string, or an instance made from it when the call is made while an exception is
  being handled.
\<close>

theorem first_promise_call_wins:
  "(future self \<noteq> Unset \<longrightarrow>
      promise_step w self = self \<and> fold promise_step ws self = self)
   \<and> (future self = Unset \<longrightarrow>
      \<not> done_future self
      \<and> future (promise_step w self) = Completed (written w)
      \<and> done_future (promise_step w self)
      \<and> fold promise_step (w # ws) self = promise_step w self
      \<and> done_future (fold promise_step (w # ws) self))
   \<and> written (Set_result v)
       = \<lparr>value_obj = v, error_type = Null, error_value = Null, error_traceback = Null\<rparr>
   \<and> (PyExceptionInstance_Check e \<longrightarrow>
        written (Set_exception h e)
          = \<lparr>value_obj = Null, error_type = TypeOf e, error_value = e,
             error_traceback = PyException_GetTraceback e\<rparr>)
   \<and> (\<not> PyExceptionInstance_Check e \<and> \<not> handling h \<longrightarrow>
        written (Set_exception h e)
          = \<lparr>value_obj = Null, error_type = SystemError_type,
             error_value = SystemError_message (TypeOf e), error_traceback = Null\<rparr>)
   \<and> (\<not> PyExceptionInstance_Check e \<and> handling h \<longrightarrow>
        written (Set_exception h e)
          = \<lparr>value_obj = Null, error_type = SystemError_type,
             error_value = Instance_of SystemError_type, error_traceback = Null\<rparr>)"
proof -
  have t: "future self \<noteq> Unset \<longrightarrow>
      promise_step w self = self \<and> fold promise_step ws self = self"
    by (simp add: promise_step_terminal fold_promise_step_terminal)
  have u: "future self = Unset \<longrightarrow>
      \<not> done_future self
      \<and> future (promise_step w self) = Completed (written w)
      \<and> done_future (promise_step w self)
      \<and> fold promise_step (w # ws) self = promise_step w self
      \<and> done_future (fold promise_step (w # ws) self)"
  proof
    assume a: "future self = Unset"
    have f: "future (promise_step w self) = Completed (written w)"
      using a by (simp add: promise_step_eq future_SetResult_Unset)
    then have nu: "future (promise_step w self) \<noteq> Unset" by simp
    have fo: "fold promise_step (w # ws) self = promise_step w self"
      using fold_promise_step_terminal [OF nu, of ws] by simp
    show "\<not> done_future self
      \<and> future (promise_step w self) = Completed (written w)
      \<and> done_future (promise_step w self)
      \<and> fold promise_step (w # ws) self = promise_step w self
      \<and> done_future (fold promise_step (w # ws) self)"
      using a f fo by (simp add: done_future_def)
  qed
  have wv: "written (Set_result v)
       = \<lparr>value_obj = v, error_type = Null, error_value = Null, error_traceback = Null\<rparr>"
    by simp
  have we: "PyExceptionInstance_Check e \<longrightarrow>
        written (Set_exception h e)
          = \<lparr>value_obj = Null, error_type = TypeOf e, error_value = e,
             error_traceback = PyException_GetTraceback e\<rparr>"
    by (simp add: set_exception_value_instance)
  have wr: "\<not> PyExceptionInstance_Check e \<and> \<not> handling h \<longrightarrow>
        written (Set_exception h e)
          = \<lparr>value_obj = Null, error_type = SystemError_type,
             error_value = SystemError_message (TypeOf e), error_traceback = Null\<rparr>"
    by (simp add: set_exception_value_refused)
  have wh: "\<not> PyExceptionInstance_Check e \<and> handling h \<longrightarrow>
        written (Set_exception h e)
          = \<lparr>value_obj = Null, error_type = SystemError_type,
             error_value = Instance_of SystemError_type, error_traceback = Null\<rparr>"
    by (simp add: set_exception_value_refused_handling)
  show ?thesis using t u wv we wr wh by blast
qed

theorem first_promise_call_wins_witness:
  "future (fold promise_step
        [Set_result (Object 5), Set_exception Null (Object 9), Set_result (Object 6)]
      \<lparr>callbacks = [], registration = False, cancel_callbacks = 0,
       mem = Map.empty, trace = [], future = Unset\<rparr>)
     = Completed \<lparr>value_obj = Object 5, error_type = Null, error_value = Null, error_traceback = Null\<rparr>
   \<and> future (fold promise_step
        [Set_exception Null (Exception_instance AnyOtherException 9 (Object 3)),
         Set_result (Object 6)]
      \<lparr>callbacks = [], registration = False, cancel_callbacks = 0,
       mem = Map.empty, trace = [], future = Unset\<rparr>)
     = Completed \<lparr>value_obj = Null,
         error_type = TypeOf (Exception_instance AnyOtherException 9 (Object 3)),
         error_value = Exception_instance AnyOtherException 9 (Object 3),
         error_traceback = Object 3\<rparr>
   \<and> future (fold promise_step [Set_exception Null (Object 5), Set_result (Object 6)]
      \<lparr>callbacks = [], registration = False, cancel_callbacks = 0,
       mem = Map.empty, trace = [], future = Unset\<rparr>)
     = Completed \<lparr>value_obj = Null, error_type = SystemError_type,
         error_value = SystemError_message (TypeOf (Object 5)), error_traceback = Null\<rparr>
   \<and> future (fold promise_step
        [Set_exception (Exception_instance AnyOtherException 4 Null) (Object 5),
         Set_result (Object 6)]
      \<lparr>callbacks = [], registration = False, cancel_callbacks = 0,
       mem = Map.empty, trace = [], future = Unset\<rparr>)
     = Completed \<lparr>value_obj = Null, error_type = SystemError_type,
         error_value = Instance_of SystemError_type, error_traceback = Null\<rparr>
   \<and> fold promise_step [Set_result (Object 6)]
      \<lparr>callbacks = [], registration = False, cancel_callbacks = 0,
       mem = Map.empty, trace = [], future = Cancelled\<rparr>
     = \<lparr>callbacks = [], registration = False, cancel_callbacks = 0,
       mem = Map.empty, trace = [], future = Cancelled\<rparr>"
proof -
  let ?s = "\<lparr>callbacks = [], registration = False, cancel_callbacks = 0,
       mem = Map.empty, trace = [], future = Unset\<rparr>"
  let ?c = "\<lparr>callbacks = [], registration = False, cancel_callbacks = 0,
       mem = Map.empty, trace = [], future = Cancelled\<rparr>"
  let ?x = "Exception_instance AnyOtherException 9 (Object 3)"
  let ?h = "Exception_instance AnyOtherException 4 Null"
  have u: "future ?s = Unset" by simp
  have c: "future ?c \<noteq> Unset" by simp
  have ix: "PyExceptionInstance_Check ?x" by simp
  have io: "\<not> PyExceptionInstance_Check (Object 5) \<and> \<not> handling Null"
    by (simp add: handling_def)
  have ih: "\<not> PyExceptionInstance_Check (Object 5) \<and> handling ?h"
    by (simp add: handling_def)
  have a1: "future (fold promise_step
        (Set_result (Object 5) # [Set_exception Null (Object 9), Set_result (Object 6)]) ?s)
      = Completed (written (Set_result (Object 5)))"
    using first_promise_call_wins [of ?s "Set_result (Object 5)"
        "[Set_exception Null (Object 9), Set_result (Object 6)]"] u by metis
  have a2: "future (fold promise_step (Set_exception Null ?x # [Set_result (Object 6)]) ?s)
      = Completed (written (Set_exception Null ?x))"
    using first_promise_call_wins [of ?s "Set_exception Null ?x" "[Set_result (Object 6)]"] u
    by metis
  have a3: "future (fold promise_step (Set_exception Null (Object 5) # [Set_result (Object 6)]) ?s)
      = Completed (written (Set_exception Null (Object 5)))"
    using first_promise_call_wins [of ?s "Set_exception Null (Object 5)"
        "[Set_result (Object 6)]"] u
    by metis
  have a3': "future (fold promise_step (Set_exception ?h (Object 5) # [Set_result (Object 6)]) ?s)
      = Completed (written (Set_exception ?h (Object 5)))"
    using first_promise_call_wins [of ?s "Set_exception ?h (Object 5)"
        "[Set_result (Object 6)]"] u
    by metis
  have r2: "written (Set_exception Null ?x) = \<lparr>value_obj = Null, error_type = TypeOf ?x,
      error_value = ?x, error_traceback = PyException_GetTraceback ?x\<rparr>"
    using first_promise_call_wins [of _ _ _ _ ?x Null] ix by blast
  have r3: "written (Set_exception Null (Object 5)) = \<lparr>value_obj = Null,
      error_type = SystemError_type, error_value = SystemError_message (TypeOf (Object 5)),
      error_traceback = Null\<rparr>"
    using first_promise_call_wins [of _ _ _ _ "Object 5" Null] io by blast
  have r3': "written (Set_exception ?h (Object 5)) = \<lparr>value_obj = Null,
      error_type = SystemError_type, error_value = Instance_of SystemError_type,
      error_traceback = Null\<rparr>"
    using first_promise_call_wins [of _ _ _ _ "Object 5" ?h] ih by blast
  have a4: "fold promise_step [Set_result (Object 6)] ?c = ?c"
    using first_promise_call_wins [of ?c "Set_result (Object 6)" "[Set_result (Object 6)]"] c
    by blast
  show ?thesis using a1 a2 a3 a3' r2 r3 r3' a4 by simp
qed

section \<open>Properties of the cancel-callback list\<close>

lemma dpath_append:
  "dpath m p a (ys @ xs) b = (\<exists>c. dpath m p a ys c \<and> dpath m (last (p # ys)) c xs b)"
proof (induction ys arbitrary: p a)
  case Nil
  show ?case by simp
next
  case (Cons y ys)
  show ?case by (auto simp: Cons.IH split: option.splits)
qed

lemma dpath_agree:
  "(\<And>a. a \<in> set xs \<Longrightarrow> m' a = m a) \<Longrightarrow> dpath m' p a xs b = dpath m p a xs b"
proof (induction xs arbitrary: p a)
  case Nil
  show ?case by simp
next
  case (Cons x xs)
  have "m' x = m x" using Cons.prems by simp
  moreover have "dpath m' q c xs b = dpath m q c xs b" for q c
    using Cons.IH Cons.prems by simp
  ultimately show ?case by (simp split: option.splits)
qed

lemma dpath_start:
  "dpath m p a xs b \<Longrightarrow> a = hd (xs @ [b])"
  by (cases xs) auto

lemma dpath_live:
  "dpath m p a xs b \<Longrightarrow> x \<in> set xs \<Longrightarrow> \<exists>n. m x = Some n"
  by (induction xs arbitrary: p a) (auto split: option.splits)

lemma dpath_retarget:
  "dpath m p a ys b \<Longrightarrow> ys \<noteq> [] \<Longrightarrow> distinct ys \<Longrightarrow> m (last ys) = Some n \<Longrightarrow>
   (\<And>c. c \<in> set (butlast ys) \<Longrightarrow> m' c = m c) \<Longrightarrow>
   m' (last ys) = Some (n\<lparr>nxt := b'\<rparr>) \<Longrightarrow>
   dpath m' p a ys b'"
proof (induction ys arbitrary: p a)
  case Nil
  then show ?case by simp
next
  case (Cons y ys)
  show ?case
  proof (cases "ys = []")
    case True
    then show ?thesis using Cons.prems by (auto split: option.splits)
  next
    case False
    then have l: "last (y # ys) = last ys" by simp
    have yy: "m' y = m y" using Cons.prems(5) [of y] False by simp
    obtain k where k: "m y = Some k" "prv k = p" "a = y" "dpath m y (nxt k) ys b"
      using Cons.prems(1) by (auto split: option.splits)
    have "dpath m' y (nxt k) ys b'"
    proof (rule Cons.IH [OF k(4) False])
      show "distinct ys" using Cons.prems(3) by simp
      show "m (last ys) = Some n" using Cons.prems(4) l by simp
      show "m' (last ys) = Some (n\<lparr>nxt := b'\<rparr>)" using Cons.prems(6) l by simp
      fix c assume "c \<in> set (butlast ys)"
      then show "m' c = m c" using Cons.prems(5) [of c] False by simp
    qed
    then show ?thesis using k yy by simp
  qed
qed

lemma dpath_reparent:
  "dpath m p a (z # zs) b \<Longrightarrow> z \<notin> set zs \<Longrightarrow> m z = Some n \<Longrightarrow>
   (\<And>c. c \<in> set zs \<Longrightarrow> m' c = m c) \<Longrightarrow>
   m' z = Some (n\<lparr>prv := p'\<rparr>) \<Longrightarrow>
   dpath m' p' a (z # zs) b"
  using dpath_agree [of zs m' m z "nxt n" b] by (auto split: option.splits)

lemma unlink_self_dll:
  assumes wf: "dll m s (ys @ x # xs)"
  shows "\<exists>n m'. m x = Some n \<and> nxt n = hd (xs @ [s])
           \<and> call_cancel_callback UnlinkSelf x m = Inr m'
           \<and> dll m' s (ys @ xs)
           \<and> (\<forall>a. a \<noteq> x \<longrightarrow> notifies m' a = notifies m a)"
proof -
  obtain sn where sn: "m s = Some sn" and path: "dpath m s (nxt sn) (ys @ x # xs) s"
    and sprv: "prv sn = last (x # xs)"
    using wf by (auto simp: dll_def split: option.splits)
  have dist: "distinct (s # ys @ x # xs)" using wf by (simp add: dll_def)
  have xs_s: "x \<noteq> s" "x \<notin> set ys" "x \<notin> set xs" "s \<notin> set ys" "s \<notin> set xs"
    "distinct ys" "distinct xs" "set ys \<inter> set xs = {}"
    using dist by auto
  obtain c where c: "dpath m s (nxt sn) ys c" "dpath m (last (s # ys)) c (x # xs) s"
    using path dpath_append [of m s "nxt sn" ys "x # xs" s] by blast
  obtain n where n: "m x = Some n" "prv n = last (s # ys)" "dpath m x (nxt n) xs s" "c = x"
    using c(2) by (auto split: option.splits)
  have succ: "nxt n = hd (xs @ [s])" using dpath_start [OF n(3)] .
  have ys_path: "dpath m s (nxt sn) ys x" using c(1) n(4) by simp
  show ?thesis
  proof (cases ys rule: rev_cases)
    case Nil
    note ysE = Nil
    have pred: "prv n = s" using n(2) ysE by simp
    have start: "nxt sn = x" using ys_path ysE by simp
    show ?thesis
    proof (cases xs)
      case Nil
      have nx: "nxt n = s" using succ Nil by simp
      let ?m' = "(m(s \<mapsto> sn\<lparr>prv := s, nxt := s\<rparr>))(x := None)"
      have rm: "call_cancel_callback UnlinkSelf x m = Inr ?m'"
        using n(1) sn pred nx xs_s(1) by (simp add: Remove_def)
      have d: "dll ?m' s (ys @ xs)"
        using xs_s(1) ysE Nil by (simp add: dll_def)
      have nt: "\<forall>a. a \<noteq> x \<longrightarrow> notifies ?m' a = notifies m a"
        using sn by (simp add: notifies_def)
      show ?thesis using n(1) succ rm d nt by blast
    next
      case (Cons z zs)
      have nx: "nxt n = z" using succ Cons by simp
      have zp: "dpath m x z (z # zs) s" using n(3) nx Cons by simp
      obtain nn where nn: "m z = Some nn" using zp by (auto split: option.splits)
      have z: "z \<noteq> s" "z \<noteq> x" "z \<notin> set zs" "x \<notin> set zs" "s \<notin> set zs"
        using xs_s Cons by auto
      let ?m' = "(m(z \<mapsto> nn\<lparr>prv := s\<rparr>, s \<mapsto> sn\<lparr>nxt := z\<rparr>))(x := None)"
      have rm: "call_cancel_callback UnlinkSelf x m = Inr ?m'"
        using n(1) sn nn pred nx z(1) by (simp add: Remove_def)
      have p': "dpath ?m' s z (z # zs) s"
      proof (rule dpath_reparent [OF zp z(3) nn])
        show "?m' z = Some (nn\<lparr>prv := s\<rparr>)" using z by simp
        fix c assume "c \<in> set zs"
        then show "?m' c = m c" using z by auto
      qed
      have d: "dll ?m' s (ys @ xs)"
        using p' xs_s(1) ysE Cons dist sprv by (simp add: dll_def)
      have nt: "\<forall>a. a \<noteq> x \<longrightarrow> notifies ?m' a = notifies m a"
        using sn nn by (simp add: notifies_def)
      show ?thesis using n(1) succ rm d nt by blast
    qed
  next
    case (snoc ys' y)
    note ysE = snoc
    have ne: "ys \<noteq> []" using ysE by simp
    have ly: "last ys = y" using ysE by simp
    have pred: "prv n = y" using n(2) ysE by simp
    have y: "y \<noteq> s" "y \<noteq> x" "y \<in> set ys" "y \<notin> set xs"
      using xs_s ysE by auto
    obtain pn where pn: "m y = Some pn"
      using dpath_live [OF ys_path y(3)] by blast
    show ?thesis
    proof (cases xs)
      case Nil
      have nx: "nxt n = s" using succ Nil by simp
      let ?m' = "(m(s \<mapsto> sn\<lparr>prv := y\<rparr>, y \<mapsto> pn\<lparr>nxt := s\<rparr>))(x := None)"
      have rm: "call_cancel_callback UnlinkSelf x m = Inr ?m'"
        using n(1) sn pn pred nx y(1) by (simp add: Remove_def)
      have p': "dpath ?m' s (nxt sn) ys s"
      proof (rule dpath_retarget [OF ys_path ne xs_s(6)])
        show "m (last ys) = Some pn" using pn ly by simp
        show "?m' (last ys) = Some (pn\<lparr>nxt := s\<rparr>)" using ly y by simp
        fix c assume a: "c \<in> set (butlast ys)"
        then have "c \<in> set ys" by (rule in_set_butlastD)
        moreover have "c \<noteq> y" using a xs_s(6) ysE by auto
        ultimately show "?m' c = m c" using xs_s by auto
      qed
      have d: "dll ?m' s (ys @ xs)"
        using p' xs_s y ne ly Nil by (simp add: dll_def)
      have nt: "\<forall>a. a \<noteq> x \<longrightarrow> notifies ?m' a = notifies m a"
        using sn pn by (simp add: notifies_def)
      show ?thesis using n(1) succ rm d nt by blast
    next
      case (Cons z zs)
      have nx: "nxt n = z" using succ Cons by simp
      have zp: "dpath m x z (z # zs) s" using n(3) nx Cons by simp
      obtain nn where nn: "m z = Some nn" using zp by (auto split: option.splits)
      have z: "z \<noteq> s" "z \<noteq> x" "z \<notin> set zs" "x \<notin> set zs" "s \<notin> set zs" "z \<noteq> y"
        "y \<notin> set zs" "z \<notin> set ys"
        using xs_s y Cons by auto
      let ?m' = "(m(z \<mapsto> nn\<lparr>prv := y\<rparr>, y \<mapsto> pn\<lparr>nxt := z\<rparr>))(x := None)"
      have rm: "call_cancel_callback UnlinkSelf x m = Inr ?m'"
        using n(1) pn nn pred nx z y by (simp add: Remove_def)
      have p1: "dpath ?m' s (nxt sn) ys z"
      proof (rule dpath_retarget [OF ys_path ne xs_s(6)])
        show "m (last ys) = Some pn" using pn ly by simp
        show "?m' (last ys) = Some (pn\<lparr>nxt := z\<rparr>)" using ly y by simp
        fix c assume a: "c \<in> set (butlast ys)"
        then have "c \<in> set ys" by (rule in_set_butlastD)
        moreover have "c \<noteq> y" using a xs_s(6) ysE by auto
        ultimately show "?m' c = m c" using xs_s z by auto
      qed
      have p2: "dpath ?m' y z (z # zs) s"
      proof (rule dpath_reparent [OF zp z(3) nn])
        show "?m' z = Some (nn\<lparr>prv := y\<rparr>)" using z by simp
        fix c assume "c \<in> set zs"
        then show "?m' c = m c" using z by auto
      qed
      have p': "dpath ?m' s (nxt sn) (ys @ xs) s"
        using p1 p2 ne ly Cons dpath_append [of ?m' s "nxt sn" ys xs s] by auto
      have ms: "?m' s = Some sn" using sn z y xs_s by simp
      have d: "dll ?m' s (ys @ xs)"
        using p' ms dist sprv Cons by (simp add: dll_def)
      have nt: "\<forall>a. a \<noteq> x \<longrightarrow> notifies ?m' a = notifies m a"
        using pn nn by (simp add: notifies_def)
      show ?thesis using n(1) succ rm d nt by blast
    qed
  qed
qed

text \<open>
  The constructor leaves a well-formed empty list, and registering a callback at a fresh
  address keeps the list well-formed with the new node last: the lists the traversal meets
  are well-formed.
\<close>

lemma dll_Initialize: "dll (Initialize s m) s []"
  by (simp add: dll_def Initialize_def)

lemma dll_InsertBefore:
  assumes wf: "dll m s xs" and fresh: "new \<notin> set (s # xs)"
  shows "\<exists>m'. InsertBefore s new f m = Inr m' \<and> dll m' s (xs @ [new])
           \<and> notifies m' new = (f = Notify)
           \<and> (\<forall>a. a \<noteq> new \<longrightarrow> notifies m' a = notifies m a)"
proof -
  obtain sn where sn: "m s = Some sn" and path: "dpath m s (nxt sn) xs s"
    and sprv: "prv sn = last (s # xs)"
    using wf by (auto simp: dll_def split: option.splits)
  have dist: "distinct (s # xs)" using wf by (simp add: dll_def)
  have nw: "new \<noteq> s" "new \<notin> set xs" using fresh by auto
  show ?thesis
  proof (cases xs rule: rev_cases)
    case Nil
    have p: "prv sn = s" "nxt sn = s" using sprv path Nil by simp_all
    let ?m' = "m(new \<mapsto> \<lparr>nxt = s, prv = s, callback = f\<rparr>, s \<mapsto> sn\<lparr>nxt := new, prv := new\<rparr>)"
    have ins: "InsertBefore s new f m = Inr ?m'"
      using sn p nw by (simp add: InsertBefore_def)
    have d: "dll ?m' s (xs @ [new])" using Nil nw by (auto simp: dll_def)
    have n1: "notifies ?m' new = (f = Notify)" using nw by (simp add: notifies_def)
    have n2: "\<forall>a. a \<noteq> new \<longrightarrow> notifies ?m' a = notifies m a"
      using sn by (simp add: notifies_def)
    show ?thesis using ins d n1 n2 by blast
  next
    case (snoc ys y)
    have ne: "xs \<noteq> []" and ly: "last xs = y" using snoc by simp_all
    have y: "y \<noteq> s" "y \<noteq> new" "y \<in> set xs" using dist nw snoc by auto
    have p: "prv sn = y" using sprv snoc by simp
    obtain yn where yn: "m y = Some yn" using dpath_live [OF path y(3)] by blast
    let ?m' = "m(new \<mapsto> \<lparr>nxt = s, prv = y, callback = f\<rparr>, y \<mapsto> yn\<lparr>nxt := new\<rparr>,
                 s \<mapsto> sn\<lparr>prv := new\<rparr>)"
    have ins: "InsertBefore s new f m = Inr ?m'"
      using sn yn p nw y by (simp add: InsertBefore_def)
    have p1: "dpath ?m' s (nxt sn) xs new"
    proof (rule dpath_retarget [OF path ne])
      show "distinct xs" using dist by simp
      show "m (last xs) = Some yn" using yn ly by simp
      show "?m' (last xs) = Some (yn\<lparr>nxt := new\<rparr>)" using ly y by simp
      fix c assume a: "c \<in> set (butlast xs)"
      then have "c \<in> set xs" by (rule in_set_butlastD)
      moreover have "c \<noteq> y" using a dist snoc by auto
      ultimately show "?m' c = m c" using dist nw by auto
    qed
    have p2: "dpath ?m' y new [new] s" using nw y by simp
    have p': "dpath ?m' s (nxt sn) (xs @ [new]) s"
      using p1 p2 ne ly dpath_append [of ?m' s "nxt sn" xs "[new]" s] by auto
    have d: "dll ?m' s (xs @ [new])"
      using p' dist nw by (simp add: dll_def)
    have n1: "notifies ?m' new = (f = Notify)" using nw y by (simp add: notifies_def)
    have n2: "\<forall>a. a \<noteq> new \<longrightarrow> notifies ?m' a = notifies m a"
      using sn yn by (simp add: notifies_def)
    show ?thesis using ins d n1 n2 by blast
  qed
qed

lemma dll_node:
  assumes "dll m s (ys @ x # xs)"
  shows "x \<noteq> s \<and> (\<exists>n. m x = Some n \<and> nxt n = hd (xs @ [s]))"
proof -
  have "x \<noteq> s" using assms by (auto simp: dll_def)
  then show ?thesis using unlink_self_dll [OF assms] by blast
qed

lemma dll_first:
  assumes "dll m s xs"
  shows "\<exists>n. m s = Some n \<and> nxt n = hd (xs @ [s])"
proof -
  obtain n where n: "m s = Some n" "dpath m s (nxt n) xs s"
    using assms by (auto simp: dll_def split: option.splits)
  show ?thesis using n(1) dpath_start [OF n(2)] by simp
qed

lemma RunCancelCallbacks_loop_dll:
  "dll m s (ys @ xs) \<Longrightarrow>
   \<exists>m'. RunCancelCallbacks_loop s (hd (xs @ [s])) m tr
           = Some (Inr (m', tr @ map CancelCalled xs))
       \<and> dll m' s (ys @ filter (notifies m) xs)"
proof (induction xs arbitrary: m ys tr)
  case Nil
  then show ?case by (subst RunCancelCallbacks_loop.simps) simp
next
  case (Cons x xs)
  obtain n where n: "x \<noteq> s" "m x = Some n" "nxt n = hd (xs @ [s])"
    using dll_node [OF Cons.prems] by blast
  have xx: "x \<notin> set xs" using Cons.prems by (simp add: dll_def)
  show ?case
  proof (cases "callback n")
    case Notify
    have nt: "notifies m x" using n(2) Notify by (simp add: notifies_def)
    have wf: "dll m s ((ys @ [x]) @ xs)" using Cons.prems by simp
    obtain m' where m': "RunCancelCallbacks_loop s (hd (xs @ [s])) m (tr @ [CancelCalled x])
           = Some (Inr (m', (tr @ [CancelCalled x]) @ map CancelCalled xs))"
      "dll m' s ((ys @ [x]) @ filter (notifies m) xs)"
      using Cons.IH [OF wf, of "tr @ [CancelCalled x]"] by blast
    have "RunCancelCallbacks_loop s (hd ((x # xs) @ [s])) m tr
        = RunCancelCallbacks_loop s (hd (xs @ [s])) m (tr @ [CancelCalled x])"
      using n Notify by (subst RunCancelCallbacks_loop.simps) simp
    then show ?thesis using m' nt by simp
  next
    case UnlinkSelf
    have nt: "\<not> notifies m x" using n(2) UnlinkSelf by (simp add: notifies_def)
    obtain m1 where m1: "call_cancel_callback UnlinkSelf x m = Inr m1" "dll m1 s (ys @ xs)"
      "\<forall>a. a \<noteq> x \<longrightarrow> notifies m1 a = notifies m a"
      using unlink_self_dll [OF Cons.prems] by blast
    obtain m' where m': "RunCancelCallbacks_loop s (hd (xs @ [s])) m1 (tr @ [CancelCalled x])
           = Some (Inr (m', (tr @ [CancelCalled x]) @ map CancelCalled xs))"
      "dll m' s (ys @ filter (notifies m1) xs)"
      using Cons.IH [OF m1(2), of "tr @ [CancelCalled x]"] by blast
    have f: "filter (notifies m1) xs = filter (notifies m) xs"
      using m1(3) xx by (intro filter_cong) auto
    have "RunCancelCallbacks_loop s (hd ((x # xs) @ [s])) m tr
        = RunCancelCallbacks_loop s (hd (xs @ [s])) m1 (tr @ [CancelCalled x])"
      using n UnlinkSelf m1(1) by (subst RunCancelCallbacks_loop.simps) simp
    then show ?thesis using m' nt f by simp
  qed
qed

lemma RunCancelCallbacks_dll:
  assumes "dll (mem self) (cancel_callbacks self) xs"
  shows "\<exists>m'. RunCancelCallbacks self
             = Some (Inr (self\<lparr>mem := m', trace := trace self @ map CancelCalled xs\<rparr>))
           \<and> dll m' (cancel_callbacks self) (filter (notifies (mem self)) xs)"
proof -
  obtain n where n: "mem self (cancel_callbacks self) = Some n" "nxt n = hd (xs @ [cancel_callbacks self])"
    using dll_first [OF assms] by blast
  have wf: "dll (mem self) (cancel_callbacks self) ([] @ xs)" using assms by simp
  obtain m' where m': "RunCancelCallbacks_loop (cancel_callbacks self)
        (hd (xs @ [cancel_callbacks self])) (mem self) (trace self)
           = Some (Inr (m', trace self @ map CancelCalled xs))"
      "dll m' (cancel_callbacks self) ([] @ filter (notifies (mem self)) xs)"
    using RunCancelCallbacks_loop_dll [OF wf, of "trace self"] by blast
  have "RunCancelCallbacks self
      = Some (Inr (self\<lparr>mem := m', trace := trace self @ map CancelCalled xs\<rparr>))"
    using n m'(1) by (simp add: RunCancelCallbacks_def)
  then show ?thesis using m'(2) by auto
qed

text \<open>
  Claim C10.  \<open>RunCancelCallbacks\<close> reads a node's \<open>next\<close> pointer before it calls the node's
  closure.  On a well-formed list, whose closures either only notify or unlink and destroy
  their own node, the traversal therefore ends without touching dead storage, and it has
  called the closure of every node that was linked when it started, once each and in list
  order; what is left is the well-formed list of the nodes that did not unlink themselves.
\<close>

theorem RunCancelCallbacks_calls_every_linked_node:
  assumes "dll (mem self) (cancel_callbacks self) xs"
  shows "\<exists>self'. RunCancelCallbacks self = Some (Inr self')
           \<and> trace self' = trace self @ map CancelCalled xs
           \<and> distinct xs
           \<and> dll (mem self') (cancel_callbacks self') (filter (notifies (mem self)) xs)
           \<and> callbacks self' = callbacks self
           \<and> registration self' = registration self"
proof -
  obtain m' where m': "RunCancelCallbacks self
             = Some (Inr (self\<lparr>mem := m', trace := trace self @ map CancelCalled xs\<rparr>))"
      "dll m' (cancel_callbacks self) (filter (notifies (mem self)) xs)"
    using RunCancelCallbacks_dll [OF assms] by blast
  have "distinct xs" using assms by (simp add: dll_def)
  then show ?thesis using m' by simp
qed

theorem RunCancelCallbacks_witness:
  "dll [0 \<mapsto> \<lparr>nxt = 1, prv = 3, callback = Notify\<rparr>,
        1 \<mapsto> \<lparr>nxt = 2, prv = 0, callback = Notify\<rparr>,
        2 \<mapsto> \<lparr>nxt = 3, prv = 1, callback = UnlinkSelf\<rparr>,
        3 \<mapsto> \<lparr>nxt = 0, prv = 2, callback = Notify\<rparr>] 0 [1, 2, 3]
   \<and> (\<exists>self'. RunCancelCallbacks
        \<lparr>callbacks = [], registration = False, cancel_callbacks = 0,
         mem = [0 \<mapsto> \<lparr>nxt = 1, prv = 3, callback = Notify\<rparr>,
                1 \<mapsto> \<lparr>nxt = 2, prv = 0, callback = Notify\<rparr>,
                2 \<mapsto> \<lparr>nxt = 3, prv = 1, callback = UnlinkSelf\<rparr>,
                3 \<mapsto> \<lparr>nxt = 0, prv = 2, callback = Notify\<rparr>],
         trace = []\<rparr> = Some (Inr self')
      \<and> trace self' = [CancelCalled 1, CancelCalled 2, CancelCalled 3])"
proof -
  let ?m = "[0 \<mapsto> \<lparr>nxt = 1, prv = 3, callback = Notify\<rparr>,
        1 \<mapsto> \<lparr>nxt = 2, prv = 0, callback = Notify\<rparr>,
        2 \<mapsto> \<lparr>nxt = 3, prv = 1, callback = UnlinkSelf\<rparr>,
        3 \<mapsto> \<lparr>nxt = (0::nat), prv = 2, callback = Notify\<rparr>]"
  let ?self = "\<lparr>callbacks = [], registration = False, cancel_callbacks = 0,
         mem = ?m, trace = []\<rparr>"
  have wf: "dll ?m 0 [1, 2, 3]" by (simp add: dll_def)
  then have wf': "dll (mem ?self) (cancel_callbacks ?self) [1, 2, 3]" by simp
  show ?thesis
    using wf RunCancelCallbacks_calls_every_linked_node [OF wf'] by auto
qed

section \<open>Properties of cancellation and of the done-callbacks over a run\<close>

lemma cancel_called_append:
  "cancel_called (tr1 @ tr2) = cancel_called tr1 @ cancel_called tr2"
  by (induction tr1 rule: cancel_called.induct) simp_all

lemma cancel_called_map: "cancel_called (map CancelCalled xs) = xs"
  by (induction xs) simp_all

lemma called_map_CancelCalled: "called (map CancelCalled xs) = []"
  by (induction xs) simp_all

lemma cancel_called_RunCallbacks_loop:
  "cancel_called (RunCallbacks_loop cs tr) = cancel_called tr"
proof (induction cs arbitrary: tr)
  case Nil
  show ?case by simp
next
  case (Cons c cs)
  show ?case
  proof (cases "outcome c")
    case Returns
    then show ?thesis by (simp add: Cons.IH cancel_called_append)
  next
    case (Throws x)
    then show ?thesis by (cases x) (simp_all add: Cons.IH cancel_called_append)
  qed
qed

lemma cancel_terminal: "future self \<noteq> Unset \<Longrightarrow> cancel self = Some (Inr self)"
  by (simp add: cancel_def)

lemma cancel_pending:
  assumes u: "future self = Unset"
    and wf: "dll (mem self) (cancel_callbacks self) xs"
  shows "\<exists>m'. cancel self = Some (Inr (self\<lparr>future := Cancelled, callbacks := [], mem := m',
               trace := RunCallbacks_loop (callbacks self) (trace self @ map CancelCalled xs)\<rparr>))
           \<and> dll m' (cancel_callbacks self) (filter (notifies (mem self)) xs)"
proof -
  let ?s = "self\<lparr>future := Cancelled\<rparr>"
  have wf': "dll (mem ?s) (cancel_callbacks ?s) xs" using wf by simp
  obtain m' where m': "RunCancelCallbacks ?s
             = Some (Inr (?s\<lparr>mem := m', trace := trace ?s @ map CancelCalled xs\<rparr>))"
      "dll m' (cancel_callbacks ?s) (filter (notifies (mem ?s)) xs)"
    using RunCancelCallbacks_dll [OF wf'] by blast
  have "cancel self = Some (Inr (self\<lparr>future := Cancelled, callbacks := [], mem := m',
               trace := RunCallbacks_loop (callbacks self) (trace self @ map CancelCalled xs)\<rparr>))"
    using u m'(1) by (simp add: cancel_def RunCallbacks_def Let_def)
  then show ?thesis using m'(2) by auto
qed

lemma promise_step_pending:
  "future self = Unset \<Longrightarrow>
   promise_step w self = self\<lparr>future := Completed (written w), callbacks := [],
      trace := RunCallbacks_loop (callbacks self) (trace self)\<rparr>"
  by (simp add: promise_step_eq SetResult_def RunCallbacks_def Let_def)

text \<open>
  Claim C4.  \<open>cancel()\<close> on a Pending future returns with the future Cancelled; it has called
  the closure of every registered cancel-callback, once each, and after them the
  done-callbacks, all of them in registration order, leaving the done-callback list empty.
  \<open>cancel()\<close> on a future that is already terminal changes nothing, so a second \<open>cancel()\<close>
  is a no-op, and after a producer has written a value or an error \<open>cancel()\<close> calls no
  cancel-callback; the producer's write itself calls none either.
\<close>

theorem cancel_fires_cancel_then_done_callbacks:
  "(future self = Unset \<and> dll (mem self) (cancel_callbacks self) xs \<longrightarrow>
      (\<exists>self'. cancel self = Some (Inr self')
         \<and> future self' = Cancelled \<and> cancelled self'
         \<and> trace self' = RunCallbacks_loop (callbacks self) (trace self @ map CancelCalled xs)
         \<and> cancel_called (trace self') = cancel_called (trace self) @ xs
         \<and> distinct xs
         \<and> called (trace self') = called (trace self) @ map ptr (callbacks self)
         \<and> callbacks self' = []
         \<and> cancel self' = Some (Inr self')))
   \<and> (future self \<noteq> Unset \<longrightarrow> cancel self = Some (Inr self))
   \<and> (future self = Unset \<longrightarrow>
        cancel (promise_step w self) = Some (Inr (promise_step w self))
        \<and> cancel_called (trace (promise_step w self)) = cancel_called (trace self))"
proof -
  have a: "future self = Unset \<and> dll (mem self) (cancel_callbacks self) xs \<longrightarrow>
      (\<exists>self'. cancel self = Some (Inr self')
         \<and> future self' = Cancelled \<and> cancelled self'
         \<and> trace self' = RunCallbacks_loop (callbacks self) (trace self @ map CancelCalled xs)
         \<and> cancel_called (trace self') = cancel_called (trace self) @ xs
         \<and> distinct xs
         \<and> called (trace self') = called (trace self) @ map ptr (callbacks self)
         \<and> callbacks self' = []
         \<and> cancel self' = Some (Inr self'))"
  proof
    assume h: "future self = Unset \<and> dll (mem self) (cancel_callbacks self) xs"
    then obtain m' where m': "cancel self = Some (Inr (self\<lparr>future := Cancelled, callbacks := [],
               mem := m',
               trace := RunCallbacks_loop (callbacks self) (trace self @ map CancelCalled xs)\<rparr>))"
      using cancel_pending [of self xs] by blast
    let ?s' = "self\<lparr>future := Cancelled, callbacks := [], mem := m',
               trace := RunCallbacks_loop (callbacks self) (trace self @ map CancelCalled xs)\<rparr>"
    have d: "distinct xs" using h by (simp add: dll_def)
    have c1: "cancel_called (trace ?s') = cancel_called (trace self) @ xs"
      by (simp add: cancel_called_RunCallbacks_loop cancel_called_append cancel_called_map)
    have c2: "called (trace ?s') = called (trace self) @ map ptr (callbacks self)"
      by (simp add: called_RunCallbacks_loop called_append called_map_CancelCalled)
    have c3: "cancel ?s' = Some (Inr ?s')" by (simp add: cancel_terminal)
    have c4: "future ?s' = Cancelled \<and> cancelled ?s' \<and> callbacks ?s' = []
        \<and> trace ?s' = RunCallbacks_loop (callbacks self) (trace self @ map CancelCalled xs)"
      by (simp add: cancelled_def)
    show "\<exists>self'. cancel self = Some (Inr self')
         \<and> future self' = Cancelled \<and> cancelled self'
         \<and> trace self' = RunCallbacks_loop (callbacks self) (trace self @ map CancelCalled xs)
         \<and> cancel_called (trace self') = cancel_called (trace self) @ xs
         \<and> distinct xs
         \<and> called (trace self') = called (trace self) @ map ptr (callbacks self)
         \<and> callbacks self' = []
         \<and> cancel self' = Some (Inr self')"
      using m' d c1 c2 c3 c4 by blast
  qed
  have b: "future self \<noteq> Unset \<longrightarrow> cancel self = Some (Inr self)"
    by (simp add: cancel_terminal)
  have c: "future self = Unset \<longrightarrow>
        cancel (promise_step w self) = Some (Inr (promise_step w self))
        \<and> cancel_called (trace (promise_step w self)) = cancel_called (trace self)"
    by (simp add: promise_step_pending cancel_terminal cancel_called_RunCallbacks_loop)
  show ?thesis using a b c by blast
qed

theorem cancel_witness:
  "\<exists>self'. cancel
       \<lparr>callbacks = [Callback 10 (Throws other_exception), Callback 11 Returns],
        registration = True, cancel_callbacks = 0,
        mem = [0 \<mapsto> \<lparr>nxt = 1, prv = 2, callback = Notify\<rparr>,
               1 \<mapsto> \<lparr>nxt = 2, prv = 0, callback = UnlinkSelf\<rparr>,
               2 \<mapsto> \<lparr>nxt = 0, prv = 1, callback = Notify\<rparr>],
        trace = [], future = Unset\<rparr> = Some (Inr self')
     \<and> future self' = Cancelled
     \<and> trace self' = [CancelCalled 1, CancelCalled 2, Called 10, LogUnexpected, Called 11]
     \<and> cancel self' = Some (Inr self')"
proof -
  let ?m = "[0 \<mapsto> \<lparr>nxt = 1, prv = 2, callback = Notify\<rparr>,
               1 \<mapsto> \<lparr>nxt = 2, prv = 0, callback = UnlinkSelf\<rparr>,
               2 \<mapsto> \<lparr>nxt = (0::nat), prv = 1, callback = Notify\<rparr>]"
  let ?self = "\<lparr>callbacks = [Callback 10 (Throws other_exception), Callback 11 Returns],
        registration = True, cancel_callbacks = 0, mem = ?m, trace = [], future = Unset\<rparr>"
  have h: "future ?self = Unset \<and> dll (mem ?self) (cancel_callbacks ?self) [1, 2]"
    by (simp add: dll_def)
  obtain self' where s: "cancel ?self = Some (Inr self')" "future self' = Cancelled"
    "trace self' = RunCallbacks_loop (callbacks ?self) (trace ?self @ map CancelCalled [1, 2])"
    "cancel self' = Some (Inr self')"
    using cancel_fires_cancel_then_done_callbacks [of ?self "[1, 2]"] h by blast
  have "trace self' = [CancelCalled 1, CancelCalled 2, Called 10, LogUnexpected, Called 11]"
    using s(3) by simp
  then show ?thesis using s by blast
qed

lemma added_append: "added (as @ bs) = added as @ added bs"
  by (induction as rule: added.induct) simp_all

lemma run_calls_append:
  "run_calls (as @ bs) self =
     (case run_calls as self of
        None \<Rightarrow> None
      | Some (Inl f) \<Rightarrow> Some (Inl f)
      | Some (Inr self1) \<Rightarrow> run_calls bs self1)"
  by (induction as arbitrary: self) (auto split: option.splits sum.splits)

lemma run_calls_adds_pending:
  "future self = Unset \<Longrightarrow> \<forall>c\<in>set pre. is_add c \<Longrightarrow>
   run_calls pre self = Some (Inr (self\<lparr>callbacks := callbacks self @ added pre\<rparr>))"
proof (induction pre arbitrary: self)
  case Nil
  show ?case by simp
next
  case (Cons c pre)
  obtain cb where c: "c = Add_done_callback cb"
    using Cons.prems(2) by (cases c) simp_all
  let ?s = "self\<lparr>callbacks := callbacks self @ [cb]\<rparr>"
  have st: "add_done_callback cb self = ?s"
    using Cons.prems(1) by (simp add: add_done_callback_def done_future_def)
  have "run_calls pre ?s = Some (Inr (?s\<lparr>callbacks := callbacks ?s @ added pre\<rparr>))"
    using Cons.IH [of ?s] Cons.prems by simp
  then show ?case using c st by simp
qed

lemma run_calls_terminal:
  "future self \<noteq> Unset \<Longrightarrow>
   run_calls post self
     = Some (Inr (self\<lparr>trace := trace self @ map (\<lambda>cb. Called (ptr cb)) (added post)\<rparr>))"
proof (induction post arbitrary: self)
  case Nil
  show ?case by simp
next
  case (Cons c post)
  show ?case
  proof (cases c)
    case (Add_done_callback cb)
    let ?s = "self\<lparr>trace := trace self @ [Called (ptr cb)]\<rparr>"
    have st: "add_done_callback cb self = ?s"
      using Cons.prems by (simp add: add_done_callback_def done_future_def)
    have "run_calls post ?s
        = Some (Inr (?s\<lparr>trace := trace ?s @ map (\<lambda>cb. Called (ptr cb)) (added post)\<rparr>))"
      using Cons.IH [of ?s] Cons.prems by simp
    then show ?thesis using Add_done_callback st by simp
  next
    case (Promise_call w)
    then show ?thesis using Cons.IH [OF Cons.prems] Cons.prems
      by (simp add: promise_step_terminal)
  next
    case Cancel_call
    then show ?thesis using Cons.IH [OF Cons.prems] Cons.prems
      by (simp add: cancel_terminal)
  qed
qed

lemma called_map_Called: "called (map (\<lambda>cb. Called (ptr cb)) cs) = map ptr cs"
  by (induction cs) simp_all

lemma completion_step:
  assumes u: "future self = Unset"
    and wf: "dll (mem self) (cancel_callbacks self) xs"
    and c0: "\<not> is_add c0"
  shows "\<exists>mid. channel_step c0 self = Some (Inr mid) \<and> future mid \<noteq> Unset
           \<and> callbacks mid = []
           \<and> called (trace mid) = called (trace self) @ map ptr (callbacks self)"
proof (cases c0)
  case (Add_done_callback cb)
  then show ?thesis using c0 by simp
next
  case (Promise_call w)
  then show ?thesis using u
    by (simp add: promise_step_pending called_RunCallbacks_loop)
next
  case Cancel_call
  obtain m' where "cancel self = Some (Inr (self\<lparr>future := Cancelled, callbacks := [], mem := m',
               trace := RunCallbacks_loop (callbacks self) (trace self @ map CancelCalled xs)\<rparr>))"
    using cancel_pending [OF u wf] by blast
  then show ?thesis using Cancel_call
    by (simp add: called_RunCallbacks_loop called_append called_map_CancelCalled)
qed

text \<open>
  Claim C3.  Take any calls of \<open>add_done_callback\<close> made on a Pending future, then the call
  that completes it (a producer's write or \<open>cancel\<close>), then any further calls.  Before the
  completion the callbacks are only queued, in registration order, and none is called.  The
  completing call dispatches all of them, in registration order, and empties the queue.
  Every callback added afterwards is called at once, inside \<open>add_done_callback\<close>, and is not
  queued.  Over the whole run each registered callback is called exactly once.
\<close>

theorem done_callbacks_called_exactly_once:
  assumes "future self = Unset"
    and "dll (mem self) (cancel_callbacks self) xs"
    and "\<forall>c\<in>set pre. is_add c"
    and "\<not> is_add c0"
  shows "\<exists>before mid fin.
      run_calls pre self = Some (Inr before)
      \<and> callbacks before = callbacks self @ added pre
      \<and> trace before = trace self
      \<and> run_calls (pre @ [c0]) self = Some (Inr mid)
      \<and> done_future mid
      \<and> called (trace mid) = called (trace self) @ map ptr (callbacks self @ added pre)
      \<and> callbacks mid = []
      \<and> (\<forall>cb. add_done_callback cb mid = mid\<lparr>trace := trace mid @ [Called (ptr cb)]\<rparr>)
      \<and> run_calls (pre @ c0 # post) self = Some (Inr fin)
      \<and> trace fin = trace mid @ map (\<lambda>cb. Called (ptr cb)) (added post)
      \<and> callbacks fin = []
      \<and> called (trace fin)
          = called (trace self) @ map ptr (callbacks self) @ map ptr (added (pre @ c0 # post))"
proof -
  let ?before = "self\<lparr>callbacks := callbacks self @ added pre\<rparr>"
  have b: "run_calls pre self = Some (Inr ?before)"
    using run_calls_adds_pending [OF assms(1) assms(3)] .
  have ub: "future ?before = Unset" using assms(1) by simp
  have wfb: "dll (mem ?before) (cancel_callbacks ?before) xs" using assms(2) by simp
  obtain mid where mid: "channel_step c0 ?before = Some (Inr mid)" "future mid \<noteq> Unset"
      "callbacks mid = []"
      "called (trace mid) = called (trace ?before) @ map ptr (callbacks ?before)"
    using completion_step [OF ub wfb assms(4)] by blast
  have m: "run_calls (pre @ [c0]) self = Some (Inr mid)"
    using b mid(1) by (simp add: run_calls_append)
  let ?fin = "mid\<lparr>trace := trace mid @ map (\<lambda>cb. Called (ptr cb)) (added post)\<rparr>"
  have f: "run_calls (pre @ c0 # post) self = Some (Inr ?fin)"
    using b mid(1) run_calls_terminal [OF mid(2), of post] by (simp add: run_calls_append)
  have a0: "added [c0] = []" using assms(4) by (cases c0) simp_all
  have ad: "added (pre @ c0 # post) = added pre @ added post"
    using added_append [of pre "[c0] @ post"] added_append [of "[c0]" post] a0 by simp
  have cf: "called (trace ?fin)
      = called (trace self) @ map ptr (callbacks self) @ map ptr (added (pre @ c0 # post))"
    using mid(4) by (simp add: called_append called_map_Called ad)
  have imm: "\<forall>cb. add_done_callback cb mid = mid\<lparr>trace := trace mid @ [Called (ptr cb)]\<rparr>"
    using mid(2) by (simp add: add_done_callback_def done_future_def)
  have dm: "done_future mid" using mid(2) by (simp add: done_future_def)
  have cm: "called (trace mid) = called (trace self) @ map ptr (callbacks self @ added pre)"
    using mid(4) by simp
  have fin_fields: "trace ?fin = trace mid @ map (\<lambda>cb. Called (ptr cb)) (added post)
      \<and> callbacks ?fin = []"
    using mid(3) by simp
  have before_fields: "callbacks ?before = callbacks self @ added pre \<and> trace ?before = trace self"
    by simp
  show ?thesis
    using b before_fields m dm cm mid(3) imm f fin_fields cf by blast
qed

theorem done_callbacks_called_exactly_once_witness:
  "(\<exists>fin. run_calls
       [Add_done_callback (Callback 1 Returns),
        Add_done_callback (Callback 2 (Throws other_exception)),
        Promise_call (Set_exception Null (Object 9)),
        Add_done_callback (Callback 3 Returns), Cancel_call,
        Add_done_callback (Callback 1 Returns)]
       \<lparr>callbacks = [], registration = False, cancel_callbacks = 0,
        mem = [0 \<mapsto> \<lparr>nxt = 0, prv = 0, callback = Notify\<rparr>], trace = [], future = Unset\<rparr>
       = Some (Inr fin)
     \<and> called (trace fin) = [1, 2, 3, 1] \<and> callbacks fin = [])
   \<and> (\<exists>fin. run_calls
       [Add_done_callback (Callback 1 Returns), Cancel_call,
        Add_done_callback (Callback 3 Returns)]
       \<lparr>callbacks = [], registration = False, cancel_callbacks = 0,
        mem = [0 \<mapsto> \<lparr>nxt = 0, prv = 0, callback = Notify\<rparr>], trace = [], future = Unset\<rparr>
       = Some (Inr fin)
     \<and> called (trace fin) = [1, 3] \<and> callbacks fin = [])"
proof -
  let ?self = "\<lparr>callbacks = [], registration = False, cancel_callbacks = 0,
        mem = [0 \<mapsto> \<lparr>nxt = (0::nat), prv = 0, callback = Notify\<rparr>], trace = [],
        future = Unset\<rparr>"
  let ?pre = "[Add_done_callback (Callback 1 Returns),
        Add_done_callback (Callback 2 (Throws other_exception))]"
  let ?post = "[Add_done_callback (Callback 3 Returns), Cancel_call,
        Add_done_callback (Callback 1 Returns)]"
  have u: "future ?self = Unset" by simp
  have wf: "dll (mem ?self) (cancel_callbacks ?self) []" by (simp add: dll_def)
  have p1: "\<forall>c\<in>set ?pre. is_add c" by simp
  have c1: "\<not> is_add (Promise_call (Set_exception Null (Object 9)))" by simp
  obtain fin1 where f1: "run_calls (?pre @ Promise_call (Set_exception Null (Object 9)) # ?post) ?self
        = Some (Inr fin1)" "callbacks fin1 = []"
      "called (trace fin1) = called (trace ?self) @ map ptr (callbacks ?self)
          @ map ptr (added (?pre @ Promise_call (Set_exception Null (Object 9)) # ?post))"
    using done_callbacks_called_exactly_once [OF u wf p1 c1, of ?post] by blast
  have r1: "called (trace fin1) = [1, 2, 3, 1]" using f1(3) by simp
  have p2: "\<forall>c\<in>set [Add_done_callback (Callback 1 Returns)]. is_add c" by simp
  have c2: "\<not> is_add Cancel_call" by simp
  obtain fin2 where f2: "run_calls ([Add_done_callback (Callback 1 Returns)] @ Cancel_call
          # [Add_done_callback (Callback 3 Returns)]) ?self = Some (Inr fin2)"
      "callbacks fin2 = []"
      "called (trace fin2) = called (trace ?self) @ map ptr (callbacks ?self)
          @ map ptr (added ([Add_done_callback (Callback 1 Returns)] @ Cancel_call
              # [Add_done_callback (Callback 3 Returns)]))"
    using done_callbacks_called_exactly_once [OF u wf p2 c2,
        of "[Add_done_callback (Callback 3 Returns)]"] by blast
  have r2: "called (trace fin2) = [1, 3]" using f2(3) by simp
  have a: "\<exists>fin. run_calls (?pre @ Promise_call (Set_exception Null (Object 9)) # ?post) ?self
        = Some (Inr fin) \<and> called (trace fin) = [1, 2, 3, 1] \<and> callbacks fin = []"
    using f1(1) f1(2) r1 by blast
  have b: "\<exists>fin. run_calls ([Add_done_callback (Callback 1 Returns)] @ Cancel_call
          # [Add_done_callback (Callback 3 Returns)]) ?self = Some (Inr fin)
        \<and> called (trace fin) = [1, 3] \<and> callbacks fin = []"
    using f2(1) f2(2) r2 by blast
  show ?thesis using a b by simp
qed

section \<open>Properties of the blocking interface and of the bridge\<close>








text \<open>
  A future that is cancelled by another thread while \<open>exception\<close> is still waiting is a
  different case: the wait itself fails with the cancellation error.
\<close>

lemma exception_cancelled_while_waiting:
  "future self = Unset \<Longrightarrow> Wait env 0 = kSuccess \<Longrightarrow> slot_at 0 = Cancelled \<Longrightarrow>
   exception env slot_at self = Some (Inl (error_already_set CancelledError))"
  by (simp add: exception_def awaited_slot_def done_future_def InterruptibleWaitImpl_def
      InterruptibleWaitImpl_loop.simps ThrowCancelledError_def)













end
